theory Spec2Isabelle
  imports Complex_Main "HOL-Library.Word"
begin

unbundle bit_operations_syntax

section \<open>JavaScript strings and values\<close>

text \<open>
  A JavaScript string is a sequence of UTF-16 code units. The literals of the source are
  ASCII, written here with \<open>lit\<close>.
\<close>

type_synonym code_unit = "16 word"
type_synonym jsstring = "code_unit list"
type_synonym u32 = "32 word"

definition lit :: "string \<Rightarrow> jsstring" where
  "lit cs = map of_char cs"

text \<open>
  The values \<open>JSON.parse\<close> can produce. A number is kept as the token that was read:
  what a double does with it is platform arithmetic and is taken as a parameter, see
  \<open>number_semantics\<close>.
\<close>

datatype json =
    JNull
  | JBool bool
  | JNumber jsstring
  | JString jsstring
  | JArray "json list"
  | JObject "(jsstring \<times> json) list"

text \<open>
  The arithmetic on doubles that this code can observe: for the number of a token, whether
  it is truthy, how it prints, whether it is the same map key as another one, and whether
  it is greater than 20; and for a string, whether the number it converts to is greater
  than 20.
\<close>

record number_semantics =
  number_truthy :: "jsstring \<Rightarrow> bool"
  number_to_string :: "jsstring \<Rightarrow> jsstring"
  number_same :: "jsstring \<Rightarrow> jsstring \<Rightarrow> bool"
  number_gt_20 :: "jsstring \<Rightarrow> bool"
  text_gt_20 :: "jsstring \<Rightarrow> bool"

datatype js_error = TypeError

datatype 'a completion = Returned 'a | Thrown js_error

section \<open>qr-utils.js: CRC-32\<close>

text \<open>The body of the inner loop that builds one table entry (lines 11-13).\<close>

definition crc_table_step :: "u32 \<Rightarrow> u32" where
  "crc_table_step crc =
     (if crc AND 1 \<noteq> 0 then 0xEDB88320 XOR drop_bit 1 crc else drop_bit 1 crc)"

text \<open>\<open>CRC32_TABLE\<close>: entry \<open>i\<close> is \<open>i\<close> after eight rounds of the inner loop.\<close>

definition CRC32_TABLE :: "u32 list" where
  "CRC32_TABLE = map (\<lambda>i. (crc_table_step ^^ 8) (of_nat i)) [0..<256]"

text \<open>One round of the loop of \<open>calculateCRC32\<close> (lines 27-28).\<close>

definition crc_update :: "u32 \<Rightarrow> code_unit \<Rightarrow> u32" where
  "crc_update crc c =
     (let byte = ucast (c AND 0xFF) :: u32
      in CRC32_TABLE ! unat ((crc XOR byte) AND 0xFF) XOR drop_bit 8 crc)"

text \<open>\<open>Number.prototype.toString(16)\<close> on a non-negative integer, and \<open>padStart\<close>.\<close>

definition hex_digit :: "nat \<Rightarrow> code_unit" where
  "hex_digit d = of_nat (if d < 10 then 48 + d else 87 + d)"

fun toString16 :: "nat \<Rightarrow> jsstring" where
  "toString16 n =
     (if n < 16 then [hex_digit n] else toString16 (n div 16) @ [hex_digit (n mod 16)])"

declare toString16.simps [simp del]

definition padStart :: "nat \<Rightarrow> code_unit \<Rightarrow> jsstring \<Rightarrow> jsstring" where
  "padStart n c s = replicate (n - length s) c @ s"

definition calculateCRC32 :: "jsstring \<Rightarrow> jsstring" where
  "calculateCRC32 str =
     (let crc = foldl crc_update 0xFFFFFFFF str;
          crc' = crc XOR 0xFFFFFFFF
      in padStart 8 0x30 (toString16 (unat crc')))"

section \<open>JSON.stringify and JSON.parse\<close>

definition is_lead_surrogate :: "code_unit \<Rightarrow> bool" where
  "is_lead_surrogate c \<longleftrightarrow> 0xD800 \<le> unat c \<and> unat c \<le> 0xDBFF"

definition is_trail_surrogate :: "code_unit \<Rightarrow> bool" where
  "is_trail_surrogate c \<longleftrightarrow> 0xDC00 \<le> unat c \<and> unat c \<le> 0xDFFF"

text \<open>\<open>\uXXXX\<close> with four lower-case hexadecimal digits.\<close>

definition unicode_escape :: "code_unit \<Rightarrow> jsstring" where
  "unicode_escape c =
     [0x5C, 0x75, hex_digit (unat c div 4096 mod 16), hex_digit (unat c div 256 mod 16),
      hex_digit (unat c div 16 mod 16), hex_digit (unat c mod 16)]"

text \<open>
  The escape of one code unit that is not a surrogate: the short escapes, \<open>\u00XX\<close> for
  the other control characters, the unit itself otherwise.
\<close>

definition escape_unit :: "code_unit \<Rightarrow> jsstring" where
  "escape_unit c =
     (if c = 0x08 then [0x5C, 0x62]
      else if c = 0x09 then [0x5C, 0x74]
      else if c = 0x0A then [0x5C, 0x6E]
      else if c = 0x0C then [0x5C, 0x66]
      else if c = 0x0D then [0x5C, 0x72]
      else if c = 0x22 then [0x5C, 0x22]
      else if c = 0x5C then [0x5C, 0x5C]
      else if unat c < 0x20 then unicode_escape c
      else [c])"

text \<open>
  QuoteJSONString without the surrounding quotes: a surrogate pair is copied, a lone
  surrogate is escaped.
\<close>

fun json_quote_chars :: "jsstring \<Rightarrow> jsstring" where
  "json_quote_chars [] = []"
| "json_quote_chars (c # cs) =
     (if is_lead_surrogate c then
        (case cs of
           [] \<Rightarrow> unicode_escape c
         | d # ds \<Rightarrow>
             if is_trail_surrogate d then c # d # json_quote_chars ds
             else unicode_escape c @ json_quote_chars cs)
      else if is_trail_surrogate c then unicode_escape c @ json_quote_chars cs
      else escape_unit c @ json_quote_chars cs)"

definition json_quote :: "jsstring \<Rightarrow> jsstring" where
  "json_quote s = 0x22 # json_quote_chars s @ [0x22]"

text \<open>
  \<open>JSON.stringify\<close> on a plain object whose properties, in insertion order, are all
  strings: the only objects \<open>encodeQRPayload\<close> passes to it.
\<close>

fun stringify_members :: "(jsstring \<times> jsstring) list \<Rightarrow> jsstring" where
  "stringify_members [] = []"
| "stringify_members [(k, v)] = json_quote k @ [0x3A] @ json_quote v"
| "stringify_members ((k, v) # m # ms) =
     json_quote k @ [0x3A] @ json_quote v @ [0x2C] @ stringify_members (m # ms)"

definition JSON_stringify :: "(jsstring \<times> jsstring) list \<Rightarrow> jsstring" where
  "JSON_stringify props = [0x7B] @ stringify_members props @ [0x7D]"

text \<open>The JSON grammar of \<open>JSON.parse\<close>. \<open>None\<close> is the SyntaxError.\<close>

definition is_ws :: "code_unit \<Rightarrow> bool" where
  "is_ws c \<longleftrightarrow> c = 0x09 \<or> c = 0x0A \<or> c = 0x0D \<or> c = 0x20"

definition skip_ws :: "jsstring \<Rightarrow> jsstring" where
  "skip_ws = dropWhile is_ws"

definition hex_value :: "code_unit \<Rightarrow> nat option" where
  "hex_value c =
     (let n = unat c
      in if 48 \<le> n \<and> n \<le> 57 then Some (n - 48)
         else if 97 \<le> n \<and> n \<le> 102 then Some (n - 87)
         else if 65 \<le> n \<and> n \<le> 70 then Some (n - 55)
         else None)"

definition parse_hex4 ::
  "code_unit \<Rightarrow> code_unit \<Rightarrow> code_unit \<Rightarrow> code_unit \<Rightarrow> code_unit option" where
  "parse_hex4 a b c d =
     (case (hex_value a, hex_value b, hex_value c, hex_value d) of
        (Some p, Some q, Some r, Some s) \<Rightarrow> Some (of_nat (4096 * p + 256 * q + 16 * r + s))
      | _ \<Rightarrow> None)"

definition simple_escape :: "code_unit \<Rightarrow> code_unit option" where
  "simple_escape e =
     (if e = 0x22 then Some 0x22
      else if e = 0x5C then Some 0x5C
      else if e = 0x2F then Some 0x2F
      else if e = 0x62 then Some 0x08
      else if e = 0x66 then Some 0x0C
      else if e = 0x6E then Some 0x0A
      else if e = 0x72 then Some 0x0D
      else if e = 0x74 then Some 0x09
      else None)"

text \<open>The characters of a string after its opening quote, up to the closing one.\<close>

fun parse_string_chars :: "jsstring \<Rightarrow> (jsstring \<times> jsstring) option" where
  "parse_string_chars [] = None"
| "parse_string_chars (c # cs) =
     (if c = 0x22 then Some ([], cs)
      else if c = 0x5C then
        (case cs of
           [] \<Rightarrow> None
         | e # es \<Rightarrow>
             if e = 0x75 then
               (case es of
                  h1 # h2 # h3 # h4 # r \<Rightarrow>
                    (case parse_hex4 h1 h2 h3 h4 of
                       None \<Rightarrow> None
                     | Some u \<Rightarrow> map_option (apfst ((#) u)) (parse_string_chars r))
                | _ \<Rightarrow> None)
             else
               (case simple_escape e of
                  None \<Rightarrow> None
                | Some u \<Rightarrow> map_option (apfst ((#) u)) (parse_string_chars es)))
      else if unat c < 0x20 then None
      else map_option (apfst ((#) c)) (parse_string_chars cs))"

definition is_digit :: "code_unit \<Rightarrow> bool" where
  "is_digit c \<longleftrightarrow> 48 \<le> unat c \<and> unat c \<le> 57"

definition scan_digits :: "jsstring \<Rightarrow> (jsstring \<times> jsstring) option" where
  "scan_digits inp =
     (if takeWhile is_digit inp = [] then None
      else Some (takeWhile is_digit inp, dropWhile is_digit inp))"

definition scan_int :: "jsstring \<Rightarrow> (jsstring \<times> jsstring) option" where
  "scan_int inp =
     (case inp of
        [] \<Rightarrow> None
      | c # cs \<Rightarrow> if c = 0x30 then Some ([c], cs) else scan_digits inp)"

definition scan_frac :: "jsstring \<Rightarrow> (jsstring \<times> jsstring) option" where
  "scan_frac inp =
     (case inp of
        [] \<Rightarrow> Some ([], [])
      | c # cs \<Rightarrow>
          if c = 0x2E then map_option (apfst ((#) c)) (scan_digits cs) else Some ([], inp))"

definition scan_sign :: "jsstring \<Rightarrow> jsstring \<times> jsstring" where
  "scan_sign inp =
     (case inp of
        [] \<Rightarrow> ([], [])
      | c # cs \<Rightarrow> if c = 0x2B \<or> c = 0x2D then ([c], cs) else ([], inp))"

definition scan_exp :: "jsstring \<Rightarrow> (jsstring \<times> jsstring) option" where
  "scan_exp inp =
     (case inp of
        [] \<Rightarrow> Some ([], [])
      | c # cs \<Rightarrow>
          if c = 0x65 \<or> c = 0x45 then
            (case scan_sign cs of
               (sg, r) \<Rightarrow> map_option (apfst (\<lambda>ds. c # sg @ ds)) (scan_digits r))
          else Some ([], inp))"

definition scan_number :: "jsstring \<Rightarrow> (jsstring \<times> jsstring) option" where
  "scan_number inp =
     (case (case inp of [] \<Rightarrow> ([], []) | c # cs \<Rightarrow> if c = 0x2D then ([c], cs) else ([], inp)) of
        (sg, r0) \<Rightarrow>
          (case scan_int r0 of
             None \<Rightarrow> None
           | Some (i, r1) \<Rightarrow>
               (case scan_frac r1 of
                  None \<Rightarrow> None
                | Some (f, r2) \<Rightarrow>
                    (case scan_exp r2 of
                       None \<Rightarrow> None
                     | Some (e, r3) \<Rightarrow> Some (sg @ i @ f @ e, r3)))))"

definition scan_literal :: "jsstring \<Rightarrow> jsstring \<Rightarrow> jsstring option" where
  "scan_literal w inp =
     (if take (length w) inp = w then Some (drop (length w) inp) else None)"

text \<open>
  A value, the elements of an array after its bracket, the members of an object after
  its brace. Each returns what it read and the rest of the text. The comparisons of
  lengths are there for the termination proof only: they never fail, see
  \<open>parse_elements_unchecked\<close> and \<open>parse_members_unchecked\<close>.
\<close>

function parse_value :: "jsstring \<Rightarrow> (json \<times> jsstring) option"
  and parse_elements :: "jsstring \<Rightarrow> (json list \<times> jsstring) option"
  and parse_members :: "jsstring \<Rightarrow> ((jsstring \<times> json) list \<times> jsstring) option"
where
  "parse_value inp =
     (case skip_ws inp of
        [] \<Rightarrow> None
      | c # cs \<Rightarrow>
          if c = 0x7B then
            (case skip_ws cs of
               [] \<Rightarrow> None
             | d # ds \<Rightarrow>
                 if d = 0x7D then Some (JObject [], ds)
                 else map_option (apfst JObject) (parse_members cs))
          else if c = 0x5B then
            (case skip_ws cs of
               [] \<Rightarrow> None
             | d # ds \<Rightarrow>
                 if d = 0x5D then Some (JArray [], ds)
                 else map_option (apfst JArray) (parse_elements cs))
          else if c = 0x22 then map_option (apfst JString) (parse_string_chars cs)
          else if c = 0x2D \<or> is_digit c then map_option (apfst JNumber) (scan_number (c # cs))
          else if c = 0x74 then map_option (Pair (JBool True)) (scan_literal (lit ''true'') (c # cs))
          else if c = 0x66 then map_option (Pair (JBool False)) (scan_literal (lit ''false'') (c # cs))
          else if c = 0x6E then map_option (Pair JNull) (scan_literal (lit ''null'') (c # cs))
          else None)"
| "parse_elements inp =
     (case parse_value inp of
        None \<Rightarrow> None
      | Some (v, rest) \<Rightarrow>
          (case skip_ws rest of
             [] \<Rightarrow> None
           | c # cs \<Rightarrow>
               if c = 0x5D then Some ([v], cs)
               else if c = 0x2C \<and> length cs < length inp then
                 map_option (apfst ((#) v)) (parse_elements cs)
               else None))"
| "parse_members inp =
     (case skip_ws inp of
        [] \<Rightarrow> None
      | q # ks \<Rightarrow>
          if q = 0x22 then
            (case parse_string_chars ks of
               None \<Rightarrow> None
             | Some (k, r1) \<Rightarrow>
                 (case skip_ws r1 of
                    [] \<Rightarrow> None
                  | c # r2 \<Rightarrow>
                      if c = 0x3A \<and> length r2 < length inp then
                        (case parse_value r2 of
                           None \<Rightarrow> None
                         | Some (v, r3) \<Rightarrow>
                             (case skip_ws r3 of
                                [] \<Rightarrow> None
                              | e # r4 \<Rightarrow>
                                  if e = 0x7D then Some ([(k, v)], r4)
                                  else if e = 0x2C \<and> length r4 < length inp then
                                    map_option (apfst ((#) (k, v))) (parse_members r4)
                                  else None))
                      else None))
          else None)"
  by pat_completeness auto
termination
proof (relation "measure (\<lambda>x. case x of
    Inl inp \<Rightarrow> 2 * length inp
  | Inr (Inl inp) \<Rightarrow> 2 * length inp + 1
  | Inr (Inr inp) \<Rightarrow> 2 * length inp + 1)", goal_cases)
  case 1
  show ?case by simp
next
  case (2 inp c cs d ds)
  have "length (skip_ws inp) \<le> length inp"
    by (simp add: skip_ws_def length_dropWhile_le)
  with 2 show ?case by simp
next
  case (3 inp c cs d ds)
  have "length (skip_ws inp) \<le> length inp"
    by (simp add: skip_ws_def length_dropWhile_le)
  with 3 show ?case by simp
qed simp_all

declare parse_value.simps [simp del] parse_elements.simps [simp del] parse_members.simps [simp del]

definition JSON_parse :: "jsstring \<Rightarrow> json option" where
  "JSON_parse text =
     (case parse_value text of
        None \<Rightarrow> None
      | Some (v, rest) \<Rightarrow> if skip_ws rest = [] then Some v else None)"


section \<open>qr-utils.js: payloads\<close>

text \<open>
  Reading one of the properties \<open>s\<close>, \<open>src\<close>, \<open>cs\<close> of a parsed value. No prototype
  has a property of these names, so the read gives the own property of an object (the last
  one, when the text repeats a key) and \<open>undefined\<close>, here \<open>None\<close>, on every other value;
  on \<open>null\<close> it throws.
\<close>

fun get_field :: "json \<Rightarrow> jsstring \<Rightarrow> json option completion" where
  "get_field JNull k = Thrown TypeError"
| "get_field (JObject props) k = Returned (map_of (rev props) k)"
| "get_field (JBool b) k = Returned None"
| "get_field (JNumber t) k = Returned None"
| "get_field (JString t) k = Returned None"
| "get_field (JArray vs) k = Returned None"

text \<open>ToBoolean, as \<open>!\<close> applies it.\<close>

fun to_boolean :: "number_semantics \<Rightarrow> json option \<Rightarrow> bool" where
  "to_boolean N None = False"
| "to_boolean N (Some JNull) = False"
| "to_boolean N (Some (JBool b)) = b"
| "to_boolean N (Some (JNumber t)) = number_truthy N t"
| "to_boolean N (Some (JString t)) = (t \<noteq> [])"
| "to_boolean N (Some (JArray vs)) = True"
| "to_boolean N (Some (JObject props)) = True"

text \<open>
  ToString of a parsed value, as \<open>+\<close> with a string applies it. An array joins its
  elements with commas, \<open>null\<close> elements as the empty string. An object prints as
  \<open>[object Object]\<close>, unless it has an own property \<open>toString\<close>: a parsed value is never
  callable, so the conversion throws.
\<close>

fun js_to_string :: "number_semantics \<Rightarrow> json \<Rightarrow> jsstring completion"
  and js_join :: "number_semantics \<Rightarrow> json list \<Rightarrow> jsstring completion"
where
  "js_to_string N JNull = Returned (lit ''null'')"
| "js_to_string N (JBool b) = Returned (if b then lit ''true'' else lit ''false'')"
| "js_to_string N (JNumber t) = Returned (number_to_string N t)"
| "js_to_string N (JString t) = Returned t"
| "js_to_string N (JArray vs) = js_join N vs"
| "js_to_string N (JObject props) =
     (if lit ''toString'' \<in> fst ` set props then Thrown TypeError
      else Returned (lit ''[object Object]''))"
| "js_join N [] = Returned []"
| "js_join N (v # vs) =
     (case (if v = JNull then Returned [] else js_to_string N v) of
        Thrown e \<Rightarrow> Thrown e
      | Returned a \<Rightarrow>
          if vs = [] then Returned a
          else (case js_join N vs of
                  Thrown e \<Rightarrow> Thrown e
                | Returned b \<Rightarrow> Returned (a @ lit '','' @ b)))"

record decode_result =
  valid :: bool
  serialNumber :: json
  error :: "jsstring option"

definition decode_failure :: "jsstring \<Rightarrow> decode_result" where
  "decode_failure msg = \<lparr>valid = False, serialNumber = JNull, error = Some msg\<rparr>"

definition encodeQRPayload :: "jsstring \<Rightarrow> jsstring" where
  "encodeQRPayload serialNumber' =
     (let s = serialNumber';
          src = lit ''lablup-inventory'';
          cs = calculateCRC32 (s @ src)
      in JSON_stringify [(lit ''s'', s), (lit ''src'', src), (lit ''cs'', cs)])"

definition decodeQRPayload :: "number_semantics \<Rightarrow> jsstring \<Rightarrow> decode_result completion" where
  "decodeQRPayload N rawData =
     (case JSON_parse rawData of
        None \<Rightarrow> Returned (decode_failure (lit ''Not JSON''))
      | Some payload \<Rightarrow>
          (case get_field payload (lit ''s'') of
             Thrown e \<Rightarrow> Thrown e
           | Returned s \<Rightarrow>
               (case get_field payload (lit ''src'') of
                  Thrown e \<Rightarrow> Thrown e
                | Returned src \<Rightarrow>
                    (case get_field payload (lit ''cs'') of
                       Thrown e \<Rightarrow> Thrown e
                     | Returned cs \<Rightarrow>
                         if \<not> to_boolean N s \<or> \<not> to_boolean N src \<or> \<not> to_boolean N cs then
                           Returned (decode_failure (lit ''Missing required fields''))
                         else if src \<noteq> Some (JString (lit ''lablup-inventory'')) then
                           Returned (decode_failure (lit ''Unknown source''))
                         else
                           (case s of
                              None \<Rightarrow> Returned (decode_failure (lit ''Missing required fields''))
                            | Some sv \<Rightarrow>
                                (case js_to_string N sv of
                                   Thrown e \<Rightarrow> Thrown e
                                 | Returned text \<Rightarrow>
                                     if cs \<noteq> Some (JString (calculateCRC32
                                          (text @ lit ''lablup-inventory''))) then
                                       Returned (decode_failure (lit ''Checksum mismatch''))
                                     else
                                       Returned \<lparr>valid = True, serialNumber = sv,
                                         error = None\<rparr>))))))"


section \<open>scanner.js: the module state\<close>

datatype border_state = Idle | Searching | Found

text \<open>What the detector reports for one code, with coordinates in camera pixels.\<close>

record point =
  pt_x :: real
  pt_y :: real

record rect =
  box_x :: real
  box_y :: real
  box_width :: real
  box_height :: real

record barcode =
  rawValue :: jsstring
  cornerPoints :: "point list option"
  boundingBox :: "rect option"

text \<open>
  The \<open>bounds\<close> object of a visible code: the corner points or the rectangle it was
  built from. The rectangle that the source also derives from four corner points is
  floating-point arithmetic on the coordinates and is left out; only the overlay uses it.
\<close>

datatype bounds = CornerBounds "point list" | BoxBounds rect

record visible_qr =
  bounds :: "bounds option"
  lastSeen :: int
  isTarget :: bool

text \<open>
  The variables of the module. A \<open>Set\<close> and a \<open>Map\<close> are lists in insertion order.
  \<open>foundSerials\<close> only ever receives members of \<open>targetSerials\<close>, which are strings.
  \<open>overlayReady\<close> stands for \<open>canvasCtx && canvasElement && videoElement\<close>; the two
  callbacks are recorded as registered or not, and their calls as events.
\<close>

record scanner_state =
  isScanning :: bool
  targetSerials :: "jsstring list"
  foundSerials :: "jsstring list"
  overlayReady :: bool
  visibleQRs :: "(json \<times> visible_qr) list"
  currentBorderState :: border_state
  lastFoundTime :: int
  onFoundCallback :: bool
  onBorderStateChange :: bool

datatype event =
    FoundFeedback
  | OnFound jsstring "jsstring list"
  | BorderStateChange border_state

definition QR_VISIBILITY_TIMEOUT :: int where
  "QR_VISIBILITY_TIMEOUT = 500"

definition BORDER_DEBOUNCE_MS :: int where
  "BORDER_DEBOUNCE_MS = 300"

definition initial_state :: scanner_state where
  "initial_state =
     \<lparr>isScanning = False, targetSerials = [], foundSerials = [], overlayReady = False,
      visibleQRs = [], currentBorderState = Idle, lastFoundTime = 0,
      onFoundCallback = False, onBorderStateChange = False\<rparr>"

subsection \<open>Sets and maps\<close>

text \<open>\<open>new Set(array)\<close>: the first occurrence of each element, in order.\<close>

fun new_Set :: "jsstring list \<Rightarrow> jsstring list \<Rightarrow> jsstring list" where
  "new_Set acc [] = acc"
| "new_Set acc (x # xs) = new_Set (if x \<in> set acc then acc else acc @ [x]) xs"

text \<open>\<open>targetSerials.has(v)\<close>: only a string can be a member of a set of strings.\<close>

fun targets_has :: "jsstring list \<Rightarrow> json \<Rightarrow> bool" where
  "targets_has ts (JString t) = (t \<in> set ts)"
| "targets_has ts JNull = False"
| "targets_has ts (JBool b) = False"
| "targets_has ts (JNumber t) = False"
| "targets_has ts (JArray vs) = False"
| "targets_has ts (JObject props) = False"

text \<open>
  SameValueZero on the keys of \<open>visibleQRs\<close>. Every key is the result of its own call
  of \<open>JSON.parse\<close>, so an array or an object is a fresh one, equal to no earlier key.
\<close>

definition same_key :: "number_semantics \<Rightarrow> json \<Rightarrow> json \<Rightarrow> bool" where
  "same_key N a b =
     (case a of
        JString x \<Rightarrow> (case b of JString y \<Rightarrow> x = y | _ \<Rightarrow> False)
      | JBool x \<Rightarrow> (case b of JBool y \<Rightarrow> x = y | _ \<Rightarrow> False)
      | JNumber x \<Rightarrow> (case b of JNumber y \<Rightarrow> number_same N x y | _ \<Rightarrow> False)
      | JNull \<Rightarrow> (case b of JNull \<Rightarrow> True | _ \<Rightarrow> False)
      | JArray xs \<Rightarrow> False
      | JObject props \<Rightarrow> False)"

fun Map_set ::
  "number_semantics \<Rightarrow> (json \<times> visible_qr) list \<Rightarrow> json \<Rightarrow> visible_qr
     \<Rightarrow> (json \<times> visible_qr) list" where
  "Map_set N [] k v = [(k, v)]"
| "Map_set N ((k', v') # m) k v =
     (if same_key N k' k then (k', v) # m else (k', v') # Map_set N m k v)"

subsection \<open>Targets\<close>

text \<open>\<open>split(/[\n,]/)\<close>, with the piece being read as accumulator.\<close>

fun split_serials :: "jsstring \<Rightarrow> jsstring \<Rightarrow> jsstring list" where
  "split_serials cur [] = [cur]"
| "split_serials cur (c # cs) =
     (if c = 0x0A \<or> c = 0x2C then cur # split_serials [] cs
      else split_serials (cur @ [c]) cs)"

text \<open>The white space and line terminators that \<open>trim\<close> removes.\<close>

definition is_trim_space :: "code_unit \<Rightarrow> bool" where
  "is_trim_space c \<longleftrightarrow>
     c \<in> {0x09, 0x0A, 0x0B, 0x0C, 0x0D, 0x20, 0xA0, 0x1680, 0x2028, 0x2029, 0x202F,
          0x205F, 0x3000, 0xFEFF} \<or> (0x2000 \<le> unat c \<and> unat c \<le> 0x200A)"

definition trim :: "jsstring \<Rightarrow> jsstring" where
  "trim t = rev (dropWhile is_trim_space (rev (dropWhile is_trim_space t)))"

definition parse_serials :: "jsstring \<Rightarrow> jsstring list" where
  "parse_serials input = filter (\<lambda>t. length t > 0) (map trim (split_serials [] input))"

definition setTargetSerials :: "scanner_state \<Rightarrow> jsstring \<Rightarrow> scanner_state \<times> event list \<times> nat" where
  "setTargetSerials st input =
     (let serials = parse_serials input;
          st1 = st\<lparr>targetSerials := new_Set [] serials, foundSerials := [], visibleQRs := [],
                  lastFoundTime := 0\<rparr>
      in if isScanning st1 \<and> onBorderStateChange st1 then
           (let b = (if length serials > 0 then Searching else Idle)
            in (st1\<lparr>currentBorderState := b\<rparr>, [BorderStateChange b], length serials))
         else (st1, [], length serials))"

definition resetFoundSerials :: "scanner_state \<Rightarrow> scanner_state \<times> event list" where
  "resetFoundSerials st =
     (let st1 = st\<lparr>foundSerials := [], visibleQRs := [], lastFoundTime := 0\<rparr>
      in if isScanning st1 \<and> length (targetSerials st1) > 0 \<and> onBorderStateChange st1 then
           (st1\<lparr>currentBorderState := Searching\<rparr>, [BorderStateChange Searching])
         else (st1, []))"

definition setOnFoundCallback :: "scanner_state \<Rightarrow> bool \<Rightarrow> scanner_state" where
  "setOnFoundCallback st callback = st\<lparr>onFoundCallback := callback\<rparr>"

definition setOnBorderStateChange :: "scanner_state \<Rightarrow> bool \<Rightarrow> scanner_state" where
  "setOnBorderStateChange st callback = st\<lparr>onBorderStateChange := callback\<rparr>"

subsection \<open>Starting and stopping\<close>

text \<open>
  \<open>startScanner\<close> in two steps, since other operations can run while it waits for the
  camera: the part before the first \<open>await\<close>, where \<open>container\<close> says whether the element
  exists, and the part after the last one, where \<open>camera\<close> says whether the stream was
  obtained and is playing. A failure of either is an exception of the source.
\<close>

datatype start_outcome = AlreadyScanning | ContainerNotFound | AwaitingCamera

definition startScanner :: "scanner_state \<Rightarrow> bool \<Rightarrow> scanner_state \<times> start_outcome" where
  "startScanner st container =
     (if isScanning st then (st, AlreadyScanning)
      else if \<not> container then (st, ContainerNotFound)
      else (st\<lparr>overlayReady := True\<rparr>, AwaitingCamera))"

definition startScanner_resume :: "scanner_state \<Rightarrow> bool \<Rightarrow> scanner_state \<times> event list" where
  "startScanner_resume st camera =
     (if \<not> camera then (st, [])
      else
        (let st1 = st\<lparr>isScanning := True\<rparr>
         in if length (targetSerials st1) > 0 \<and> onBorderStateChange st1 then
              (st1\<lparr>currentBorderState := Searching\<rparr>, [BorderStateChange Searching])
            else (st1, [])))"

definition stopScanner :: "scanner_state \<Rightarrow> scanner_state \<times> event list" where
  "stopScanner st =
     (if \<not> isScanning st then (st, [])
      else
        (let st1 = st\<lparr>isScanning := False, visibleQRs := [], currentBorderState := Idle\<rparr>
         in (st1, if onBorderStateChange st1 then [BorderStateChange Idle] else [])))"

subsection \<open>Detections\<close>

definition barcode_bounds :: "barcode \<Rightarrow> bounds option" where
  "barcode_bounds b =
     (case cornerPoints b of
        Some ps \<Rightarrow>
          if length ps = 4 then Some (CornerBounds ps)
          else map_option BoxBounds (boundingBox b)
      | None \<Rightarrow> map_option BoxBounds (boundingBox b))"

text \<open>\<open>processBarcode\<close>, with the value of \<open>Date.now()\<close> as argument.\<close>

definition processBarcode ::
  "number_semantics \<Rightarrow> scanner_state \<Rightarrow> int \<Rightarrow> barcode
     \<Rightarrow> (scanner_state \<times> event list) completion" where
  "processBarcode N st now b =
     (case decodeQRPayload N (rawValue b) of
        Thrown e \<Rightarrow> Thrown e
      | Returned parsed \<Rightarrow>
          if \<not> valid parsed then Returned (st, [])
          else
            (let target = targets_has (targetSerials st) (serialNumber parsed);
                 st1 = st\<lparr>visibleQRs := Map_set N (visibleQRs st) (serialNumber parsed)
                          \<lparr>bounds = barcode_bounds b, lastSeen = now, isTarget = target\<rparr>\<rparr>
             in case serialNumber parsed of
                  JString serial \<Rightarrow>
                    if target \<and> serial \<notin> set (foundSerials st1) then
                      (let st2 = st1\<lparr>foundSerials := foundSerials st1 @ [serial]\<rparr>
                       in Returned (st2,
                            FoundFeedback #
                              (if onFoundCallback st2 then [OnFound serial (foundSerials st2)]
                               else [])))
                    else Returned (st1, [])
                | _ \<Rightarrow> Returned (st1, [])))"

text \<open>
  The loop of \<open>scanFrame\<close> over the detections of one frame, each with its own clock
  reading. An exception leaves the loop and is swallowed by the \<open>catch\<close>.
\<close>

fun scanFrame_loop ::
  "number_semantics \<Rightarrow> scanner_state \<Rightarrow> (int \<times> barcode) list \<Rightarrow> scanner_state \<times> event list" where
  "scanFrame_loop N st [] = (st, [])"
| "scanFrame_loop N st ((now, b) # rest) =
     (case processBarcode N st now b of
        Thrown e \<Rightarrow> (st, [])
      | Returned (st1, evs) \<Rightarrow>
          (case scanFrame_loop N st1 rest of (st2, evs') \<Rightarrow> (st2, evs @ evs')))"

subsection \<open>The render tick\<close>

text \<open>
  \<open>x > 20\<close> for a parsed value \<open>x\<close>: it is converted to a primitive, then to a number.
  \<open>null\<close> and the booleans convert to 0 and 1, \<open>[object Object]\<close> to NaN.
\<close>

fun js_gt_20 :: "number_semantics \<Rightarrow> json \<Rightarrow> bool completion" where
  "js_gt_20 N JNull = Returned False"
| "js_gt_20 N (JBool b) = Returned False"
| "js_gt_20 N (JNumber t) = Returned (number_gt_20 N t)"
| "js_gt_20 N (JString t) = Returned (text_gt_20 N t)"
| "js_gt_20 N (JArray vs) =
     (case js_join N vs of Thrown e \<Rightarrow> Thrown e | Returned t \<Rightarrow> Returned (text_gt_20 N t))"
| "js_gt_20 N (JObject props) =
     (if lit ''toString'' \<in> fst ` set props then Thrown TypeError else Returned False)"

text \<open>
  The text of a label, \<open>serial.length > 20 ? serial.substring(0, 17) + '...' : serial\<close>,
  as the canvas reads it. Only a string has a \<open>substring\<close> to call: an array of more than
  20 elements, and an object with a \<open>length\<close> greater than 20, throw.
\<close>

fun overlay_label :: "number_semantics \<Rightarrow> json \<Rightarrow> jsstring completion" where
  "overlay_label N (JString t) =
     Returned (if length t > 20 then take 17 t @ lit ''...'' else t)"
| "overlay_label N (JNumber t) = js_to_string N (JNumber t)"
| "overlay_label N (JBool b) = js_to_string N (JBool b)"
| "overlay_label N JNull = Thrown TypeError"
| "overlay_label N (JArray vs) =
     (if length vs > 20 then Thrown TypeError else js_to_string N (JArray vs))"
| "overlay_label N (JObject props) =
     (case map_of (rev props) (lit ''length'') of
        None \<Rightarrow> js_to_string N (JObject props)
      | Some l \<Rightarrow>
          (case js_gt_20 N l of
             Thrown e \<Rightarrow> Thrown e
           | Returned exceeds \<Rightarrow>
               if exceeds then Thrown TypeError else js_to_string N (JObject props)))"

text \<open>What the tick draws for one code: its entry and the text of its label.\<close>

type_synonym overlay = "json \<times> visible_qr \<times> jsstring"

text \<open>
  The loop of \<open>drawOverlays\<close> over the entries of \<open>visibleQRs\<close>: the entries left in the
  map, \<open>hasVisibleTarget\<close>, \<open>lastFoundTime\<close>, the overlays drawn, and the exception if the
  loop was left by one. An exception leaves the entry it occurred at, and the entries after
  it, in the map.
\<close>

fun overlay_loop ::
  "number_semantics \<Rightarrow> int \<Rightarrow> int \<Rightarrow> (json \<times> visible_qr) list
     \<Rightarrow> (json \<times> visible_qr) list \<times> bool \<times> int \<times> overlay list \<times> js_error option" where
  "overlay_loop N now lft [] = ([], False, lft, [], None)"
| "overlay_loop N now lft ((serial, data) # rest) =
     (if now - lastSeen data > QR_VISIBILITY_TIMEOUT then overlay_loop N now lft rest
      else
        (let lft1 = (if isTarget data then now else lft)
         in if bounds data \<noteq> None then
              (case overlay_label N serial of
                 Thrown e \<Rightarrow> ((serial, data) # rest, isTarget data, lft1, [], Some e)
               | Returned text \<Rightarrow>
                   (case overlay_loop N now lft1 rest of
                      (kept, hasVisibleTarget, lft', drawn, err) \<Rightarrow>
                        ((serial, data) # kept, isTarget data \<or> hasVisibleTarget, lft',
                         (serial, data, text) # drawn, err)))
            else
              (case overlay_loop N now lft1 rest of
                 (kept, hasVisibleTarget, lft', drawn, err) \<Rightarrow>
                   ((serial, data) # kept, isTarget data \<or> hasVisibleTarget, lft', drawn,
                    err))))"

text \<open>
  \<open>drawOverlays\<close>, with the value of \<open>Date.now()\<close> as argument: the state, the events, the
  overlays drawn and the exception, if it threw one. An exception of the loop skips the
  update of the border state.
\<close>

definition drawOverlays ::
  "number_semantics \<Rightarrow> scanner_state \<Rightarrow> int
     \<Rightarrow> scanner_state \<times> event list \<times> overlay list \<times> js_error option" where
  "drawOverlays N st now =
     (if \<not> overlayReady st then (st, [], [], None)
      else
        (case overlay_loop N now (lastFoundTime st) (visibleQRs st) of
           (kept, hasVisibleTarget, lft, drawn, err) \<Rightarrow>
             (let st1 = st\<lparr>visibleQRs := kept, lastFoundTime := lft\<rparr>
              in if err \<noteq> None then (st1, [], drawn, err)
                 else if length (targetSerials st1) > 0 \<and> onBorderStateChange st1 then
                   (let newState =
                      (if hasVisibleTarget then Found
                       else if now - lastFoundTime st1 < BORDER_DEBOUNCE_MS then Found
                       else Searching)
                    in if newState \<noteq> currentBorderState st1 then
                         (st1\<lparr>currentBorderState := newState\<rparr>, [BorderStateChange newState],
                          drawn, None)
                       else (st1, [], drawn, None))
                 else (st1, [], drawn, None))))"

subsection \<open>Runs of the module\<close>

text \<open>
  The operations of the module, in any order: the calls of its exported functions and
  the continuations of the asynchronous ones (of \<open>startScanner\<close> after the camera, of
  \<open>scanFrame\<close> after the detector), and the render tick. A callback is taken not to call
  back into the module and not to throw.
\<close>

datatype operation =
    StartScanner bool
  | CameraResult bool
  | StopScanner
  | SetTargetSerials jsstring
  | ResetFoundSerials
  | SetOnFoundCallback bool
  | SetOnBorderStateChange bool
  | ScanFrame "(int \<times> barcode) list"
  | DrawOverlays int

fun step :: "number_semantics \<Rightarrow> scanner_state \<Rightarrow> operation \<Rightarrow> scanner_state \<times> event list" where
  "step N st (StartScanner container) = (fst (startScanner st container), [])"
| "step N st (CameraResult camera) = startScanner_resume st camera"
| "step N st StopScanner = stopScanner st"
| "step N st (SetTargetSerials input) =
     (case setTargetSerials st input of (st', evs, n) \<Rightarrow> (st', evs))"
| "step N st ResetFoundSerials = resetFoundSerials st"
| "step N st (SetOnFoundCallback cb) = (setOnFoundCallback st cb, [])"
| "step N st (SetOnBorderStateChange cb) = (setOnBorderStateChange st cb, [])"
| "step N st (ScanFrame detections) = scanFrame_loop N st detections"
| "step N st (DrawOverlays now) =
     (case drawOverlays N st now of (st', evs, drawn, err) \<Rightarrow> (st', evs))"

fun run :: "number_semantics \<Rightarrow> scanner_state \<Rightarrow> operation list \<Rightarrow> scanner_state \<times> event list" where
  "run N st [] = (st, [])"
| "run N st (op # ops) =
     (case step N st op of
        (st1, evs) \<Rightarrow> (case run N st1 ops of (st2, evs') \<Rightarrow> (st2, evs @ evs')))"

section \<open>Notions used in the statements\<close>

text \<open>The value of a string of hexadecimal digits.\<close>

definition hex_number :: "jsstring \<Rightarrow> nat" where
  "hex_number ds =
     foldl (\<lambda>a d. 16 * a + (case hex_value d of None \<Rightarrow> 0 | Some v \<Rightarrow> v)) 0 ds"

text \<open>The three fields of a text that parses to an object.\<close>

definition payload_fields :: "jsstring \<Rightarrow> (json option \<times> json option \<times> json option) option" where
  "payload_fields raw =
     (case JSON_parse raw of
        Some (JObject props) \<Rightarrow>
          Some (map_of (rev props) (lit ''s''), map_of (rev props) (lit ''src''),
                map_of (rev props) (lit ''cs''))
      | _ \<Rightarrow> None)"

text \<open>
  Some number semantics to run examples with. The theorems hold for every
  \<open>number_semantics\<close>, and no example contains a number.
\<close>

definition decimal_numbers :: number_semantics where
  "decimal_numbers =
     \<lparr>number_truthy = (\<lambda>t. t \<noteq> lit ''0''),
      number_to_string = (\<lambda>t. t),
      number_same = (\<lambda>a b. a = b),
      number_gt_20 = (\<lambda>t. length t > 2),
      text_gt_20 = (\<lambda>t. length t > 2)\<rparr>"

text \<open>A sequence of render ticks, at the given clock readings.\<close>

definition render_ticks :: "number_semantics \<Rightarrow> scanner_state \<Rightarrow> int list \<Rightarrow> scanner_state" where
  "render_ticks N st ts = foldl (\<lambda>s now. fst (drawOverlays N s now)) st ts"


definition tick_error :: "number_semantics \<Rightarrow> scanner_state \<Rightarrow> int \<Rightarrow> js_error option" where
  "tick_error N st now = snd (snd (snd (drawOverlays N st now)))"

text \<open>The strings among the keys of \<open>visibleQRs\<close>.\<close>

fun string_keys :: "(json \<times> visible_qr) list \<Rightarrow> jsstring list" where
  "string_keys [] = []"
| "string_keys ((k, d) # m) =
     (case k of JString t \<Rightarrow> t # string_keys m | _ \<Rightarrow> string_keys m)"

text \<open>
  The operations of a session: every one but a redefinition of the targets and a reset.
\<close>

fun session_op :: "operation \<Rightarrow> bool" where
  "session_op (SetTargetSerials input) = False"
| "session_op ResetFoundSerials = False"
| "session_op (StartScanner container) = True"
| "session_op (CameraResult camera) = True"
| "session_op StopScanner = True"
| "session_op (SetOnFoundCallback cb) = True"
| "session_op (SetOnBorderStateChange cb) = True"
| "session_op (ScanFrame detections) = True"
| "session_op (DrawOverlays now) = True"


fun keeps_onBorder :: "operation \<Rightarrow> bool" where
  "keeps_onBorder (SetOnBorderStateChange cb) = cb"
| "keeps_onBorder (SetTargetSerials input) = True"
| "keeps_onBorder ResetFoundSerials = True"
| "keeps_onBorder (StartScanner container) = True"
| "keeps_onBorder (CameraResult camera) = True"
| "keeps_onBorder StopScanner = True"
| "keeps_onBorder (SetOnFoundCallback cb) = True"
| "keeps_onBorder (ScanFrame detections) = True"
| "keeps_onBorder (DrawOverlays now) = True"


fun border_events :: "event list \<Rightarrow> border_state list" where
  "border_events [] = []"
| "border_events (BorderStateChange b # evs) = b # border_events evs"
| "border_events (FoundFeedback # evs) = border_events evs"
| "border_events (OnFound t snap # evs) = border_events evs"


section \<open>JSON: a stringified object parses back\<close>

lemma hex_value_hex_digit: "d < 16 \<Longrightarrow> hex_value (hex_digit d) = Some d"
  by (auto simp: hex_value_def hex_digit_def unat_of_nat Let_def)

lemma hex4_value:
  fixes n :: nat
  assumes "n < 65536"
  shows "4096 * (n div 4096 mod 16) + 256 * (n div 256 mod 16) + 16 * (n div 16 mod 16) + n mod 16 = n"
proof -
  define x where "x = n div 16"
  define y where "y = x div 16"
  define z where "z = y div 16"
  have x: "n div 16 = x" by (simp add: x_def)
  have y: "n div 256 = y" by (simp add: x_def y_def div_mult2_eq [symmetric])
  have z: "n div 4096 = z" by (simp add: x_def y_def z_def div_mult2_eq [symmetric])
  from assms have "z < 16" unfolding z [symmetric] by simp
  then have zm: "z mod 16 = z" by simp
  have "n = 16 * x + n mod 16" by (simp add: x_def)
  moreover have "x = 16 * y + x mod 16" by (simp add: y_def)
  moreover have "y = 16 * z + y mod 16" by (simp add: z_def)
  ultimately show ?thesis unfolding x y z zm by linarith
qed

lemma parse_hex4_unicode_escape:
  "parse_hex4 (hex_digit (unat c div 4096 mod 16)) (hex_digit (unat c div 256 mod 16))
     (hex_digit (unat c div 16 mod 16)) (hex_digit (unat c mod 16)) = Some c"
proof -
  have "unat c < 65536" using unsigned_less [of c, where 'a = nat] by simp
  then have "4096 * (unat c div 4096 mod 16) + 256 * (unat c div 256 mod 16)
      + 16 * (unat c div 16 mod 16) + unat c mod 16 = unat c"
    by (rule hex4_value)
  moreover have "(word_of_nat (unat c) :: code_unit) = c" by simp
  ultimately have "(word_of_nat (4096 * (unat c div 4096 mod 16) + 256 * (unat c div 256 mod 16)
      + 16 * (unat c div 16 mod 16) + unat c mod 16) :: code_unit) = c"
    by (simp only:)
  then show ?thesis
    unfolding parse_hex4_def
    by (simp only: hex_value_hex_digit mod_less_divisor zero_less_numeral prod.case option.case)
qed

lemma parse_unicode_escape:
  "parse_string_chars (unicode_escape c @ r) =
     map_option (apfst ((#) c)) (parse_string_chars r)"
  by (simp add: unicode_escape_def parse_hex4_unicode_escape)

lemma parse_escape_unit:
  "\<not> is_lead_surrogate c \<Longrightarrow> \<not> is_trail_surrogate c \<Longrightarrow>
   parse_string_chars (escape_unit c @ r) =
     map_option (apfst ((#) c)) (parse_string_chars r)"
  by (auto simp: escape_unit_def parse_unicode_escape simple_escape_def)

lemma parse_surrogate_pair:
  "is_lead_surrogate c \<Longrightarrow> is_trail_surrogate d \<Longrightarrow>
   parse_string_chars (c # d # r) =
     map_option (apfst (\<lambda>s. c # d # s)) (parse_string_chars r)"
  by (cases "parse_string_chars r") (auto simp: is_lead_surrogate_def is_trail_surrogate_def)

lemma parse_json_quote_chars:
  "parse_string_chars (json_quote_chars s @ 0x22 # rest) = Some (s, rest)"
proof (induction s rule: json_quote_chars.induct)
  case 1
  show ?case by simp
next
  case (2 c cs)
  show ?case
  proof (cases "is_lead_surrogate c")
    case lead: True
    show ?thesis
    proof (cases cs)
      case Nil
      with lead show ?thesis by (simp add: parse_unicode_escape)
    next
      case (Cons d ds)
      show ?thesis
      proof (cases "is_trail_surrogate d")
        case True
        with lead Cons 2(1) show ?thesis
          by (simp add: parse_surrogate_pair del: parse_string_chars.simps)
      next
        case False
        with lead Cons 2(2) show ?thesis
          by (simp add: parse_unicode_escape del: parse_string_chars.simps)
      qed
    qed
  next
    case nolead: False
    show ?thesis
    proof (cases "is_trail_surrogate c")
      case True
      with nolead 2(3) show ?thesis
        by (simp add: parse_unicode_escape del: parse_string_chars.simps)
    next
      case False
      with nolead 2(4) show ?thesis
        by (simp add: parse_escape_unit del: parse_string_chars.simps)
    qed
  qed
qed

lemma skip_ws_quote [simp]: "skip_ws (0x22 # r) = 0x22 # r"
  and skip_ws_colon [simp]: "skip_ws (0x3A # r) = 0x3A # r"
  and skip_ws_comma [simp]: "skip_ws (0x2C # r) = 0x2C # r"
  and skip_ws_rbrace [simp]: "skip_ws (0x7D # r) = 0x7D # r"
  and skip_ws_lbrace [simp]: "skip_ws (0x7B # r) = 0x7B # r"
  and skip_ws_Nil [simp]: "skip_ws [] = []"
  by (simp_all add: skip_ws_def is_ws_def)

lemma parse_json_quote:
  "parse_string_chars (tl (json_quote s) @ rest) = Some (s, rest)"
  by (simp add: json_quote_def parse_json_quote_chars)

lemma parse_value_json_quote:
  "parse_value (json_quote s @ rest) = Some (JString s, rest)"
  by (simp add: parse_value.simps json_quote_def parse_json_quote_chars)

lemma parse_members_stringify:
  "props \<noteq> [] \<Longrightarrow>
   parse_members (stringify_members props @ 0x7D # rest) =
     Some (map (\<lambda>(k, v). (k, JString v)) props, rest)"
proof (induction props rule: stringify_members.induct)
  case 1
  then show ?case by simp
next
  case (2 k v)
  have "parse_members (json_quote k @ 0x3A # json_quote v @ 0x7D # rest) = Some ([(k, JString v)], rest)"
    by (subst parse_members.simps)
      (simp add: json_quote_def parse_json_quote_chars parse_value_json_quote [unfolded json_quote_def, simplified])
  then show ?case by simp
next
  case (3 k v m ms)
  let ?tail = "stringify_members (m # ms) @ 0x7D # rest"
  have "parse_members (json_quote k @ 0x3A # json_quote v @ 0x2C # ?tail)
      = map_option (apfst ((#) (k, JString v))) (parse_members ?tail)"
    by (subst parse_members.simps)
      (simp add: json_quote_def parse_json_quote_chars parse_value_json_quote [unfolded json_quote_def, simplified])
  with 3 show ?case by simp
qed

lemma JSON_parse_stringify:
  "JSON_parse (JSON_stringify props) = Some (JObject (map (\<lambda>(k, v). (k, JString v)) props))"
proof (cases props)
  case Nil
  then show ?thesis
    by (simp add: JSON_parse_def JSON_stringify_def parse_value.simps)
next
  case (Cons p ps)
  then have ne: "props \<noteq> []" by simp
  obtain k v where p: "p = (k, v)" by (cases p)
  have "skip_ws (stringify_members props @ [0x7D]) = stringify_members props @ [0x7D]"
    using Cons p by (cases ps) (auto simp: json_quote_def)
  moreover have "stringify_members props @ [0x7D] \<noteq> []" by simp
  moreover have "hd (stringify_members props @ [0x7D]) \<noteq> 0x7D"
    using Cons p by (cases ps) (auto simp: json_quote_def)
  ultimately have "parse_value (0x7B # stringify_members props @ [0x7D])
      = map_option (apfst JObject) (parse_members (stringify_members props @ [0x7D]))"
    by (subst parse_value.simps) (auto split: list.splits)
  with parse_members_stringify [OF ne, of "[]"] show ?thesis
    by (simp add: JSON_parse_def JSON_stringify_def)
qed

section \<open>JSON: the parser consumes its input\<close>

lemma length_skip_ws: "length (skip_ws inp) \<le> length inp"
  by (simp add: skip_ws_def length_dropWhile_le)

lemma skip_ws_Cons_shorter: "skip_ws inp = c # cs \<Longrightarrow> length cs < length inp"
  using length_skip_ws [of inp] by simp

lemma parse_string_chars_shorter:
  "parse_string_chars cs = Some (t, r) \<Longrightarrow> length r < length cs"
proof (induction cs arbitrary: t r rule: parse_string_chars.induct)
  case 1
  then show ?case by simp
next
  case (2 c cs)
  note prem = "2.prems"
  show ?case
  proof (cases "c = 0x22")
    case True
    with prem show ?thesis by simp
  next
    case nq: False
    show ?thesis
    proof (cases "c = 0x5C")
      case False
      with nq prem obtain t' where p: "parse_string_chars cs = Some (t', r)"
        and "\<not> unat c < 0x20"
        by (auto split: if_splits)
      with nq False have "length r < length cs"
        by (intro "2.IH"(3)) auto
      then show ?thesis by simp
    next
      case bs: True
      with nq prem obtain e es where cs: "cs = e # es"
        by (cases cs) auto
      show ?thesis
      proof (cases "e = 0x75")
        case False
        with nq bs cs prem obtain u t' where "simple_escape e = Some u"
          and p: "parse_string_chars es = Some (t', r)"
          by (auto split: option.splits)
        with nq bs cs False have "length r < length es"
          by (intro "2.IH"(2)) auto
        with cs show ?thesis by simp
      next
        case True
        with nq bs cs prem obtain h1 h2 h3 h4 rr u t' where es: "es = h1 # h2 # h3 # h4 # rr"
          and "parse_hex4 h1 h2 h3 h4 = Some u" and p: "parse_string_chars rr = Some (t', r)"
          by (auto split: list.splits option.splits)
        with nq bs cs True have "length r < length rr"
          by (intro "2.IH"(1)) auto
        with cs es show ?thesis by simp
      qed
    qed
  qed
qed

lemma scan_digits_shorter: "scan_digits inp = Some (t, r) \<Longrightarrow> length r < length inp"
proof -
  assume a: "scan_digits inp = Some (t, r)"
  then have "takeWhile is_digit inp \<noteq> []" and r: "r = dropWhile is_digit inp"
    by (auto simp: scan_digits_def split: if_splits)
  then have "1 \<le> length (takeWhile is_digit inp)"
    by (cases "takeWhile is_digit inp") simp_all
  moreover have "length (takeWhile is_digit inp) + length (dropWhile is_digit inp) = length inp"
    by (metis length_append takeWhile_dropWhile_id)
  ultimately have "length (dropWhile is_digit inp) < length inp" by linarith
  then show ?thesis by (simp only: r)
qed

lemma scan_int_shorter: "scan_int inp = Some (t, r) \<Longrightarrow> length r < length inp"
  by (auto simp: scan_int_def split: list.splits if_splits dest: scan_digits_shorter)

lemma scan_frac_le: "scan_frac inp = Some (t, r) \<Longrightarrow> length r \<le> length inp"
  by (auto simp: scan_frac_def split: list.splits if_splits dest!: scan_digits_shorter)

lemma scan_sign_le: "scan_sign inp = (t, r) \<Longrightarrow> length r \<le> length inp"
  by (auto simp: scan_sign_def split: list.splits if_splits)

lemma scan_exp_le: "scan_exp inp = Some (t, r) \<Longrightarrow> length r \<le> length inp"
  by (auto simp: scan_exp_def split: list.splits if_splits prod.splits
      dest!: scan_digits_shorter scan_sign_le)

lemma scan_number_shorter: "scan_number inp = Some (t, r) \<Longrightarrow> length r < length inp"
  by (auto simp: scan_number_def split: list.splits if_splits prod.splits option.splits
      dest!: scan_int_shorter scan_frac_le scan_exp_le)

lemma scan_literal_shorter:
  assumes "w \<noteq> []" and "scan_literal w inp = Some r"
  shows "length r < length inp"
proof -
  from assms(2) have t: "take (length w) inp = w" and r: "r = drop (length w) inp"
    by (auto simp: scan_literal_def split: if_splits)
  from t have "length (take (length w) inp) = length w" by simp
  then have "length w \<le> length inp" by simp
  moreover from assms(1) have "1 \<le> length w" by (cases w) simp_all
  ultimately show ?thesis unfolding r by simp
qed


lemma parse_value_shorter:
  "parse_value inp = Some (v, rest) \<Longrightarrow> length rest < length inp"
  and parse_elements_shorter:
  "parse_elements inp = Some (vs, rest) \<Longrightarrow> length rest < length inp"
  and parse_members_shorter:
  "parse_members inp = Some (ms, rest) \<Longrightarrow> length rest < length inp"
proof (induction inp and inp and inp arbitrary: v rest and vs rest and ms rest
    rule: parse_value_parse_elements_parse_members.induct)
  case (1 inp)
  from "1.prems" obtain c cs where sk: "skip_ws inp = c # cs"
    by (subst (asm) parse_value.simps) (auto split: list.splits)
  then have len: "length cs < length inp" by (rule skip_ws_Cons_shorter)
  consider (obj) "c = 0x7B" | (arr) "c = 0x5B" | (str) "c = 0x22"
    | (other) "c \<noteq> 0x7B" "c \<noteq> 0x5B" "c \<noteq> 0x22"
    by blast
  then show ?case
  proof cases
    case obj
    with "1.prems" sk obtain d ds where sk2: "skip_ws cs = d # ds"
      by (subst (asm) parse_value.simps) (auto split: list.splits)
    show ?thesis
    proof (cases "d = 0x7D")
      case True
      with "1.prems" sk sk2 obj have "rest = ds"
        by (subst (asm) parse_value.simps) auto
      with skip_ws_Cons_shorter [OF sk2] len show ?thesis by simp
    next
      case False
      with "1.prems" sk sk2 obj obtain ms where "parse_members cs = Some (ms, rest)"
        by (subst (asm) parse_value.simps) auto
      with sk sk2 obj False have "length rest < length cs"
        by (intro "1.IH"(1)) auto
      with len show ?thesis by simp
    qed
  next
    case arr
    with "1.prems" sk obtain d ds where sk2: "skip_ws cs = d # ds"
      by (subst (asm) parse_value.simps) (auto split: list.splits)
    show ?thesis
    proof (cases "d = 0x5D")
      case True
      with "1.prems" sk sk2 arr have "rest = ds"
        by (subst (asm) parse_value.simps) auto
      with skip_ws_Cons_shorter [OF sk2] len show ?thesis by simp
    next
      case False
      with "1.prems" sk sk2 arr obtain vs where "parse_elements cs = Some (vs, rest)"
        by (subst (asm) parse_value.simps) auto
      with sk sk2 arr False have "length rest < length cs"
        by (intro "1.IH"(2)) auto
      with len show ?thesis by simp
    qed
  next
    case str
    with "1.prems" sk obtain t where "parse_string_chars cs = Some (t, rest)"
      by (subst (asm) parse_value.simps) auto
    with len show ?thesis by (auto dest: parse_string_chars_shorter)
  next
    case other
    have "lit ''true'' \<noteq> []" "lit ''false'' \<noteq> []" "lit ''null'' \<noteq> []"
      by (simp_all add: lit_def)
    with "1.prems" sk other have "length rest < length (c # cs)"
      by (subst (asm) parse_value.simps)
        (auto split: if_splits dest: scan_number_shorter scan_literal_shorter)
    with len show ?thesis by simp
  qed
next
  case (2 inp)
  from "2.prems" obtain v r where pv: "parse_value inp = Some (v, r)"
    by (subst (asm) parse_elements.simps) (auto split: option.splits)
  then have r: "length r < length inp" by (rule "2.IH"(1))
  from "2.prems" pv obtain c cs where sk: "skip_ws r = c # cs"
    by (subst (asm) parse_elements.simps) (auto split: list.splits)
  from skip_ws_Cons_shorter [OF sk] r have cs: "length cs < length inp" by simp
  show ?case
  proof (cases "c = 0x5D")
    case True
    with "2.prems" pv sk have "rest = cs"
      by (subst (asm) parse_elements.simps) auto
    with cs show ?thesis by simp
  next
    case False
    with "2.prems" pv sk obtain c2: "c = 0x2C" and "\<exists>vs'. parse_elements cs = Some (vs', rest)"
      by (subst (asm) parse_elements.simps) (auto split: if_splits)
    then obtain vs' where "parse_elements cs = Some (vs', rest)" by blast
    with pv sk False c2 cs have "length rest < length cs"
      by (intro "2.IH"(2) [of "(v, r)" v r c cs]) auto
    with cs show ?thesis by simp
  qed
next
  case (3 inp)
  from "3.prems" obtain q ks where sk: "skip_ws inp = q # ks"
    by (subst (asm) parse_members.simps) (auto split: list.splits)
  with "3.prems" have q: "q = 0x22"
    by (subst (asm) parse_members.simps) (auto split: if_splits)
  from "3.prems" sk q obtain k r1 where ps: "parse_string_chars ks = Some (k, r1)"
    by (subst (asm) parse_members.simps) (auto split: option.splits)
  from "3.prems" sk q ps obtain c r2 where sk1: "skip_ws r1 = c # r2"
    by (subst (asm) parse_members.simps) (auto split: list.splits)
  from "3.prems" sk q ps sk1 have c: "c = 0x3A" and r2: "length r2 < length inp"
    by (subst (asm) parse_members.simps; auto split: if_splits)+
  from "3.prems" sk q ps sk1 c r2 obtain v r3 where pv: "parse_value r2 = Some (v, r3)"
    by (subst (asm) parse_members.simps) (auto split: option.splits)
  with sk q ps sk1 c r2 have r3: "length r3 < length r2"
    by (intro "3.IH"(1) [of q ks "(k, r1)" k r1 c r2]) auto
  from "3.prems" sk q ps sk1 c r2 pv obtain e r4 where sk3: "skip_ws r3 = e # r4"
    by (subst (asm) parse_members.simps) (auto split: list.splits)
  from skip_ws_Cons_shorter [OF sk3] r3 r2 have r4: "length r4 < length inp" by simp
  show ?case
  proof (cases "e = 0x7D")
    case True
    with "3.prems" sk q ps sk1 c r2 pv sk3 have "rest = r4"
      by (subst (asm) parse_members.simps) auto
    with r4 show ?thesis by simp
  next
    case False
    with "3.prems" sk q ps sk1 c r2 pv sk3 obtain e2: "e = 0x2C"
      and "\<exists>ms'. parse_members r4 = Some (ms', rest)"
      by (subst (asm) parse_members.simps) (auto split: if_splits)
    then obtain ms' where "parse_members r4 = Some (ms', rest)" by blast
    with sk q ps sk1 c r2 pv sk3 False e2 r4 have "length rest < length r4"
      by (intro "3.IH"(2) [of q ks "(k, r1)" k r1 c r2 "(v, r3)" v r3 e r4]) auto
    with r4 show ?thesis by simp
  qed
qed


text \<open>The comparisons of lengths in the parser never fail: it is the plain grammar.\<close>

lemma parse_elements_unchecked:
  "parse_elements inp =
     (case parse_value inp of
        None \<Rightarrow> None
      | Some (v, rest) \<Rightarrow>
          (case skip_ws rest of
             [] \<Rightarrow> None
           | c # cs \<Rightarrow>
               if c = 0x5D then Some ([v], cs)
               else if c = 0x2C then map_option (apfst ((#) v)) (parse_elements cs)
               else None))"
proof -
  have "length cs < length inp"
    if "parse_value inp = Some (v, rest)" and "skip_ws rest = c # cs" for v rest c cs
    using parse_value_shorter [OF that(1)] skip_ws_Cons_shorter [OF that(2)] by simp
  then show ?thesis
    by (subst parse_elements.simps) (auto split: option.splits list.splits)
qed

lemma parse_members_unchecked:
  "parse_members inp =
     (case skip_ws inp of
        [] \<Rightarrow> None
      | q # ks \<Rightarrow>
          if q = 0x22 then
            (case parse_string_chars ks of
               None \<Rightarrow> None
             | Some (k, r1) \<Rightarrow>
                 (case skip_ws r1 of
                    [] \<Rightarrow> None
                  | c # r2 \<Rightarrow>
                      if c = 0x3A then
                        (case parse_value r2 of
                           None \<Rightarrow> None
                         | Some (v, r3) \<Rightarrow>
                             (case skip_ws r3 of
                                [] \<Rightarrow> None
                              | e # r4 \<Rightarrow>
                                  if e = 0x7D then Some ([(k, v)], r4)
                                  else if e = 0x2C then
                                    map_option (apfst ((#) (k, v))) (parse_members r4)
                                  else None))
                      else None))
          else None)"
proof -
  have a: "length r2 < length inp"
    if "skip_ws inp = q # ks" and "parse_string_chars ks = Some (k, r1)"
      and "skip_ws r1 = c # r2" for q ks k r1 c r2
    using skip_ws_Cons_shorter [OF that(1)] parse_string_chars_shorter [OF that(2)]
      skip_ws_Cons_shorter [OF that(3)] by simp
  have b: "length r4 < length inp"
    if "skip_ws inp = q # ks" and "parse_string_chars ks = Some (k, r1)"
      and "skip_ws r1 = c # r2" and "parse_value r2 = Some (v, r3)" and "skip_ws r3 = e # r4"
    for q ks k r1 c r2 v r3 e r4
    using a [OF that(1,2,3)] parse_value_shorter [OF that(4)] skip_ws_Cons_shorter [OF that(5)]
    by simp
  show ?thesis
    by (subst parse_members.simps) (auto split: option.splits list.splits simp: a b)
qed
section \<open>CRC-32: the checksum as polynomial division\<close>

lemma step_alt: "crc_table_step x = drop_bit 1 x XOR (if odd x then 0xEDB88320 else 0)"
  by (simp add: crc_table_step_def and_one_eq xor.commute flip: odd_iff_mod_2_eq_one)

lemma step_xor: "crc_table_step (a XOR b) = crc_table_step a XOR crc_table_step b"
  by (simp add: step_alt even_xor_iff xor.assoc xor.left_commute)

lemma step_zero: "crc_table_step 0 = 0"
  by (simp add: step_alt)

lemma steps_xor:
  "(crc_table_step ^^ k) (a XOR b) = (crc_table_step ^^ k) a XOR (crc_table_step ^^ k) b"
  by (induction k) (simp_all add: step_xor)

lemma xor_eq_zero_word: "(a::u32) XOR b = 0 \<longleftrightarrow> a = b"
  by (metis bit.xor_left_self xor.right_neutral)

lemma even_drop1_zero: "even (x::u32) \<Longrightarrow> drop_bit 1 x = 0 \<Longrightarrow> x = 0"
  using div_mult_mod_eq [of x 2] by (simp add: drop_bit_eq_div even_iff_mod_2_eq_zero)

lemma bit31: "\<not> bit (drop_bit 1 (x::u32)) 31"
  by (auto simp add: bit_simps dest: bit_imp_le_length)

lemma poly_bit31: "bit (0xEDB88320 :: u32) 31"
  by (simp add: bit_simps)

lemma mask8: "(0xFF :: 'a::len word) = mask 8"
  by (simp add: mask_eq_exp_minus_1)

lemma lowzero: "k < 8 \<Longrightarrow> even (drop_bit k ((x::u32) AND NOT 0xFF))"
proof -
  assume "k < 8"
  then have "\<not> bit (x AND NOT 0xFF) k" by (simp add: mask8 bit_simps)
  then show ?thesis by (simp only: bit_iff_odd_drop_bit not_not)
qed

lemma split8: "(x::u32) = (x AND 0xFF) XOR (x AND NOT 0xFF)"
  by (metis and.right_neutral bit.conj_xor_distrib bit.xor_cancel_right)

lemma drop8: "drop_bit 8 ((x::u32) AND NOT 0xFF) = drop_bit 8 x"
  by (rule bit_eqI) (auto simp add: mask8 bit_simps dest: bit_imp_le_length)

lemma dropbyte: "drop_bit 8 (ucast ((c::16 word) AND 0xFF) :: u32) = 0"
  by (rule bit_eqI) (auto simp add: mask8 bit_simps)

lemma step_eq_0: "crc_table_step x = 0 \<Longrightarrow> x = 0"
proof (cases "odd x")
  case True
  assume "crc_table_step x = 0"
  with True have "drop_bit 1 x = (0xEDB88320 :: u32)"
    by (simp add: step_alt xor_eq_zero_word)
  with bit31 [of x] poly_bit31 show ?thesis by simp
next
  case False
  assume "crc_table_step x = 0"
  with False have "drop_bit 1 x = 0" by (simp add: step_alt)
  with False show ?thesis by (simp add: even_drop1_zero)
qed

lemma steps_eq_0: "(crc_table_step ^^ k) x = 0 \<Longrightarrow> x = 0"
  by (induction k arbitrary: x) (auto dest: step_eq_0)

lemma steps_inj: "(crc_table_step ^^ k) a = (crc_table_step ^^ k) b \<Longrightarrow> a = b"
proof -
  assume "(crc_table_step ^^ k) a = (crc_table_step ^^ k) b"
  then have "(crc_table_step ^^ k) (a XOR b) = 0"
    by (simp add: steps_xor)
  then have "a XOR b = 0" by (rule steps_eq_0)
  then show "a = b" by (simp add: xor_eq_zero_word)
qed

lemma steps_shift:
  "(\<And>j. j < k \<Longrightarrow> even (drop_bit j h)) \<Longrightarrow> (crc_table_step ^^ k) h = drop_bit k h"
proof (induction k)
  case 0
  show ?case by simp
next
  case (Suc k)
  have ev: "even (drop_bit k h)" by (rule Suc.prems) simp
  have "(crc_table_step ^^ k) h = drop_bit k h"
    by (rule Suc.IH) (simp add: Suc.prems)
  then have "(crc_table_step ^^ Suc k) h = crc_table_step (drop_bit k h)" by simp
  also have "\<dots> = drop_bit 1 (drop_bit k h)"
    using ev by (simp add: step_alt [of "drop_bit k h"])
  also have "\<dots> = drop_bit (Suc k) h" by simp
  finally show ?case .
qed

lemma steps_high: "(crc_table_step ^^ 8) (x AND NOT 0xFF) = drop_bit 8 (x AND NOT 0xFF)"
  by (rule steps_shift) (rule lowzero)

lemma table_lookup: "CRC32_TABLE ! unat (x AND 0xFF) = (crc_table_step ^^ 8) (x AND 0xFF)"
proof -
  have "unat (x AND 0xFF) < 256"
    using take_bit_nat_less_exp [of 8 "unat x"]
    by (simp add: mask8 unsigned_take_bit_eq flip: take_bit_eq_mask)
  then show ?thesis
    by (simp add: CRC32_TABLE_def)
qed

text \<open>The table lookup of one round is eight rounds of the bitwise division.\<close>

lemma crc_update_alt: "crc_update crc c = (crc_table_step ^^ 8) (crc XOR ucast (c AND 0xFF))"
proof -
  let ?b = "ucast (c AND 0xFF) :: u32"
  let ?y = "crc XOR ?b"
  have "(crc_table_step ^^ 8) ?y
      = (crc_table_step ^^ 8) (?y AND 0xFF) XOR (crc_table_step ^^ 8) (?y AND NOT 0xFF)"
    using split8 [of ?y] steps_xor [of 8 "?y AND 0xFF" "?y AND NOT 0xFF"] by simp
  also have "(crc_table_step ^^ 8) (?y AND NOT 0xFF) = drop_bit 8 ?y"
    by (simp only: steps_high drop8)
  also have "drop_bit 8 ?y = drop_bit 8 crc"
    by (simp only: drop_bit_xor dropbyte xor.right_neutral)
  finally show ?thesis
    by (simp only: crc_update_def Let_def table_lookup)
qed

lemma xor_cancel_right_word: "(a::u32) XOR z = b XOR z \<Longrightarrow> a = b"
  by (metis bit.xor_left_self xor.commute)

lemma xor_cancel_left_word: "(z::u32) XOR a = z XOR b \<Longrightarrow> a = b"
  by (metis bit.xor_left_self)

lemma crc_update_inj_crc: "crc_update a c = crc_update b c \<Longrightarrow> a = b"
  unfolding crc_update_alt by (blast dest: steps_inj xor_cancel_right_word)

lemma ucast_16_32_inj: "(ucast (x::16 word) :: u32) = ucast y \<Longrightarrow> x = y"
proof (rule bit_eqI)
  fix n
  assume eq: "(ucast x :: u32) = ucast y" and "possible_bit TYPE(16 word) n"
  then have n: "n < 16" by simp
  from eq have "bit (ucast x :: u32) n = bit (ucast y :: u32) n" by simp
  with n show "bit x n = bit y n" by (simp add: bit_simps)
qed

lemma crc_update_inj_unit:
  "crc_update a c = crc_update a d \<Longrightarrow> c AND 0xFF = d AND 0xFF"
  unfolding crc_update_alt by (blast dest: steps_inj xor_cancel_left_word ucast_16_32_inj)

lemma crc_update_low_byte: "crc_update a (c AND 0xFF) = crc_update a c"
  by (simp add: crc_update_def and.assoc)

lemma foldl_crc_update_inj: "foldl crc_update a xs = foldl crc_update b xs \<Longrightarrow> a = b"
  by (induction xs arbitrary: a b) (auto dest: crc_update_inj_crc)

lemma foldl_crc_update_sensitive:
  assumes "i < length xs" and "c AND 0xFF \<noteq> xs ! i AND 0xFF"
  shows "foldl crc_update a (xs[i := c]) \<noteq> foldl crc_update a xs"
proof -
  have xs: "xs = take i xs @ xs ! i # drop (Suc i) xs"
    using assms(1) by (simp add: id_take_nth_drop)
  have xs': "xs[i := c] = take i xs @ c # drop (Suc i) xs"
    using assms(1) by (simp add: upd_conv_take_nth_drop)
  let ?p = "foldl crc_update a (take i xs)"
  have "crc_update ?p c \<noteq> crc_update ?p (xs ! i)"
    using assms(2) by (blast dest: crc_update_inj_unit)
  then have "foldl crc_update (crc_update ?p c) (drop (Suc i) xs)
      \<noteq> foldl crc_update (crc_update ?p (xs ! i)) (drop (Suc i) xs)"
    by (blast dest: foldl_crc_update_inj)
  then have "foldl crc_update a (take i xs @ c # drop (Suc i) xs)
      \<noteq> foldl crc_update a (take i xs @ xs ! i # drop (Suc i) xs)"
    by simp
  then show ?thesis using xs xs' by simp
qed

lemma foldl_crc_update_low_bytes:
  "foldl crc_update a (map (\<lambda>c. c AND 0xFF) xs) = foldl crc_update a xs"
  by (induction xs arbitrary: a) (simp_all add: crc_update_low_byte)

subsection \<open>The hexadecimal rendering\<close>

lemma hex_number_snoc: "hex_number (ds @ [d]) = 16 * hex_number ds + (case hex_value d of None \<Rightarrow> 0 | Some v \<Rightarrow> v)"
  by (simp add: hex_number_def)

lemma hex_number_toString16: "hex_number (toString16 n) = n"
proof (induction n rule: toString16.induct)
  case (1 n)
  show ?case
  proof (cases "n < 16")
    case True
    then show ?thesis
      by (subst toString16.simps) (simp add: hex_number_def hex_value_hex_digit)
  next
    case False
    with 1 have "hex_number (toString16 (n div 16)) = n div 16" by simp
    with False show ?thesis
      by (subst toString16.simps) (simp add: hex_number_snoc hex_value_hex_digit)
  qed
qed

lemma hex_number_zeros: "hex_number (replicate k 0x30 @ ds) = hex_number ds"
proof -
  have "foldl (\<lambda>a d. 16 * a + (case hex_value d of None \<Rightarrow> 0 | Some v \<Rightarrow> v)) 0 (replicate k 0x30) = 0"
    by (induction k) (simp_all add: hex_value_def)
  then show ?thesis by (simp add: hex_number_def)
qed

lemma hex_number_padStart: "hex_number (padStart 8 0x30 (toString16 n)) = n"
  by (simp add: padStart_def hex_number_zeros hex_number_toString16)

lemma toString16_nonempty: "toString16 n \<noteq> []"
  by (subst toString16.simps) simp

lemma calculateCRC32_nonempty: "calculateCRC32 str \<noteq> []"
  by (simp add: calculateCRC32_def padStart_def toString16_nonempty Let_def)

lemma calculateCRC32_eq_iff:
  "calculateCRC32 xs = calculateCRC32 ys \<longleftrightarrow>
     foldl crc_update 0xFFFFFFFF xs = foldl crc_update 0xFFFFFFFF ys"
proof
  assume "calculateCRC32 xs = calculateCRC32 ys"
  then have "hex_number (calculateCRC32 xs) = hex_number (calculateCRC32 ys)" by simp
  then have "unat (foldl crc_update 0xFFFFFFFF xs XOR 0xFFFFFFFF)
      = unat (foldl crc_update 0xFFFFFFFF ys XOR 0xFFFFFFFF)"
    by (simp add: calculateCRC32_def Let_def hex_number_padStart)
  then have "foldl crc_update 0xFFFFFFFF xs XOR 0xFFFFFFFF
      = foldl crc_update 0xFFFFFFFF ys XOR 0xFFFFFFFF"
    by (simp only: word_unat_eq_iff)
  then show "foldl crc_update 0xFFFFFFFF xs = foldl crc_update 0xFFFFFFFF ys"
    by (rule xor_cancel_right_word)
next
  assume "foldl crc_update 0xFFFFFFFF xs = foldl crc_update 0xFFFFFFFF ys"
  then show "calculateCRC32 xs = calculateCRC32 ys" by (simp add: calculateCRC32_def)
qed

text \<open>A change of one character that changes its low byte changes the checksum.\<close>

lemma calculateCRC32_sensitive:
  assumes "i < length xs" and "c AND 0xFF \<noteq> xs ! i AND 0xFF"
  shows "calculateCRC32 (xs[i := c]) \<noteq> calculateCRC32 xs"
  using foldl_crc_update_sensitive [OF assms] by (simp add: calculateCRC32_eq_iff)

text \<open>Only the low byte of each character enters the checksum.\<close>

lemma calculateCRC32_low_bytes:
  "calculateCRC32 (map (\<lambda>c. c AND 0xFF) xs) = calculateCRC32 xs"
  by (simp add: calculateCRC32_eq_iff foldl_crc_update_low_bytes)
section \<open>The payload codec\<close>

lemma payload_fields_decode:
  assumes "payload_fields raw = Some (Some (JString S), Some (JString SRC), Some (JString CS))"
  shows "decodeQRPayload N raw = Returned
     (if S = [] \<or> SRC = [] \<or> CS = [] then decode_failure (lit ''Missing required fields'')
      else if SRC \<noteq> lit ''lablup-inventory'' then decode_failure (lit ''Unknown source'')
      else if CS \<noteq> calculateCRC32 (S @ lit ''lablup-inventory'')
        then decode_failure (lit ''Checksum mismatch'')
      else \<lparr>valid = True, serialNumber = JString S, error = None\<rparr>)"
proof -
  from assms obtain props where p: "JSON_parse raw = Some (JObject props)"
    and f: "map_of (rev props) (lit ''s'') = Some (JString S)"
      "map_of (rev props) (lit ''src'') = Some (JString SRC)"
      "map_of (rev props) (lit ''cs'') = Some (JString CS)"
    by (auto simp: payload_fields_def split: option.splits json.splits)
  show ?thesis
    by (simp add: decodeQRPayload_def p f)
qed

lemma payload_fields_stringify:
  "payload_fields (JSON_stringify [(lit ''s'', S), (lit ''src'', SRC), (lit ''cs'', CS)])
     = Some (Some (JString S), Some (JString SRC), Some (JString CS))"
  by (simp add: payload_fields_def JSON_parse_stringify lit_def)

lemma decode_encode:
  "S \<noteq> [] \<Longrightarrow>
   decodeQRPayload N (encodeQRPayload S)
     = Returned \<lparr>valid = True, serialNumber = JString S, error = None\<rparr>"
  by (simp add: encodeQRPayload_def Let_def payload_fields_decode [OF payload_fields_stringify]
      calculateCRC32_nonempty) (simp add: lit_def)

text \<open>
  C1. For every non-empty serial, decoding the payload that \<open>encodeQRPayload\<close> makes of it
  returns a valid result with that serial.
\<close>

theorem codec_round_trip:
  "S \<noteq> [] \<Longrightarrow>
   decodeQRPayload N (encodeQRPayload S)
     = Returned \<lparr>valid = True, serialNumber = JString S, error = None\<rparr>"
  by (rule decode_encode)

theorem codec_round_trip_witness:
  "lit ''SN-42'' \<noteq> [] \<and>
   decodeQRPayload decimal_numbers (encodeQRPayload (lit ''SN-42''))
     = Returned \<lparr>valid = True, serialNumber = JString (lit ''SN-42''), error = None\<rparr>"
  using codec_round_trip [of "lit ''SN-42''" decimal_numbers] by (simp add: lit_def)

lemmas json_eval =
  JSON_parse_def parse_value.simps parse_members.simps parse_elements.simps skip_ws_def
  is_ws_def lit_def scan_literal_def is_digit_def scan_number_def scan_int_def scan_frac_def
  scan_exp_def scan_sign_def scan_digits_def

lemma JSON_parse_not_json: "JSON_parse (lit ''not json'') = None"
  by (simp add: json_eval)

lemma JSON_parse_null: "JSON_parse (lit ''null'') = Some JNull"
  by (simp add: json_eval)

lemma JSON_parse_not_ours:
  \<open>JSON_parse (lit ''{"not":"ours"}'') = Some (JObject [(lit ''not'', JString (lit ''ours''))])\<close>
  by (simp add: json_eval)

lemma JSON_parse_toString:
  \<open>JSON_parse (lit ''{"s":{"toString":1},"src":"lablup-inventory","cs":"x"}'')
     = Some (JObject [(lit ''s'', JObject [(lit ''toString'', JNumber (lit ''1''))]),
          (lit ''src'', JString (lit ''lablup-inventory'')), (lit ''cs'', JString (lit ''x''))])\<close>
  by (simp add: json_eval)

lemma decode_null: "decodeQRPayload N (lit ''null'') = Thrown TypeError"
  by (simp add: decodeQRPayload_def JSON_parse_null)

lemma tag_nonempty [simp]: "lit ''lablup-inventory'' \<noteq> []"
  by (simp add: lit_def)

lemma accepted_fields:
  assumes "payload_fields raw = Some (Some (JString S), Some (JString SRC), Some (JString CS))"
    and "decodeQRPayload N raw = Returned \<lparr>valid = True, serialNumber = sn, error = None\<rparr>"
  shows "S \<noteq> []" and "SRC = lit ''lablup-inventory''"
    and "CS = calculateCRC32 (S @ lit ''lablup-inventory'')" and "CS \<noteq> []"
  using assms(2) unfolding payload_fields_decode [OF assms(1)]
  by (auto simp: decode_failure_def split: if_splits)

text \<open>
  C9, as amended. A payload that is accepted stops being accepted when one character of
  its \<open>cs\<close> or of its \<open>src\<close> is replaced by another one, and when one character of its
  \<open>s\<close> is replaced by one with another low byte: the checksum reads only the low byte of
  each character. The error is \<open>Checksum mismatch\<close> for \<open>cs\<close> and \<open>s\<close>, \<open>Unknown source\<close>
  for \<open>src\<close>.
\<close>

theorem checksum_sensitivity:
  assumes "payload_fields raw = Some (Some (JString S), Some (JString SRC), Some (JString CS))"
    and "decodeQRPayload N raw = Returned \<lparr>valid = True, serialNumber = JString S, error = None\<rparr>"
  shows "(\<forall>raw' i c.
            payload_fields raw' = Some (Some (JString S), Some (JString SRC),
              Some (JString (CS[i := c]))) \<and> i < length CS \<and> c \<noteq> CS ! i
            \<longrightarrow> decodeQRPayload N raw' = Returned (decode_failure (lit ''Checksum mismatch'')))
       \<and> (\<forall>raw' i c.
            payload_fields raw' = Some (Some (JString S), Some (JString (SRC[i := c])),
              Some (JString CS)) \<and> i < length SRC \<and> c \<noteq> SRC ! i
            \<longrightarrow> decodeQRPayload N raw' = Returned (decode_failure (lit ''Unknown source'')))
       \<and> (\<forall>raw' i c.
            payload_fields raw' = Some (Some (JString (S[i := c])), Some (JString SRC),
              Some (JString CS)) \<and> i < length S \<and> c AND 0xFF \<noteq> S ! i AND 0xFF
            \<longrightarrow> decodeQRPayload N raw' = Returned (decode_failure (lit ''Checksum mismatch'')))"
proof -
  note acc = accepted_fields [OF assms]
  have cs: "decodeQRPayload N raw' = Returned (decode_failure (lit ''Checksum mismatch''))"
    if "payload_fields raw' = Some (Some (JString S), Some (JString SRC),
          Some (JString (CS[i := c])))" and "i < length CS" and "c \<noteq> CS ! i"
    for raw' i c
  proof -
    from that(2,3) have "CS[i := c] \<noteq> CS"
      by (metis nth_list_update_eq)
    moreover from acc(4) have "CS[i := c] \<noteq> []" by simp
    ultimately show ?thesis
      using acc(1,2,3) by (simp add: payload_fields_decode [OF that(1)])
  qed
  have src: "decodeQRPayload N raw' = Returned (decode_failure (lit ''Unknown source''))"
    if "payload_fields raw' = Some (Some (JString S), Some (JString (SRC[i := c])),
          Some (JString CS))" and "i < length SRC" and "c \<noteq> SRC ! i"
    for raw' i c
  proof -
    from that(2,3) have "SRC[i := c] \<noteq> SRC"
      by (metis nth_list_update_eq)
    moreover from that(2) have "SRC[i := c] \<noteq> []" by auto
    ultimately show ?thesis
      using acc(1,2,4) by (simp add: payload_fields_decode [OF that(1)])
  qed
  have s: "decodeQRPayload N raw' = Returned (decode_failure (lit ''Checksum mismatch''))"
    if "payload_fields raw' = Some (Some (JString (S[i := c])), Some (JString SRC),
          Some (JString CS))" and "i < length S" and "c AND 0xFF \<noteq> S ! i AND 0xFF"
    for raw' i c
  proof -
    let ?tag = "lit ''lablup-inventory''"
    from that(2,3) have "calculateCRC32 ((S @ ?tag)[i := c]) \<noteq> calculateCRC32 (S @ ?tag)"
      by (intro calculateCRC32_sensitive) (simp_all add: nth_append)
    with that(2) have "calculateCRC32 (S[i := c] @ ?tag) \<noteq> CS"
      by (simp add: list_update_append1 acc(3))
    moreover from that(2) have "S[i := c] \<noteq> []" by auto
    ultimately show ?thesis
      using acc(2,4) by (simp add: payload_fields_decode [OF that(1)])
  qed
  from cs src s show ?thesis by blast
qed

theorem checksum_sensitivity_witness:
  "decodeQRPayload decimal_numbers
     (JSON_stringify [(lit ''s'', lit ''A''), (lit ''src'', lit ''lablup-inventory''),
        (lit ''cs'', (calculateCRC32 (lit ''A'' @ lit ''lablup-inventory''))
           [0 := calculateCRC32 (lit ''A'' @ lit ''lablup-inventory'') ! 0 + 1])])
     = Returned (decode_failure (lit ''Checksum mismatch''))
   \<and> decodeQRPayload decimal_numbers
     (JSON_stringify [(lit ''s'', lit ''A''), (lit ''src'', lit ''Lablup-inventory''),
        (lit ''cs'', calculateCRC32 (lit ''A'' @ lit ''lablup-inventory''))])
     = Returned (decode_failure (lit ''Unknown source''))
   \<and> decodeQRPayload decimal_numbers
     (JSON_stringify [(lit ''s'', lit ''B''), (lit ''src'', lit ''lablup-inventory''),
        (lit ''cs'', calculateCRC32 (lit ''A'' @ lit ''lablup-inventory''))])
     = Returned (decode_failure (lit ''Checksum mismatch''))"
proof -
  let ?tag = "lit ''lablup-inventory''"
  let ?cs = "calculateCRC32 (lit ''A'' @ ?tag)"
  have f: "payload_fields (encodeQRPayload (lit ''A''))
      = Some (Some (JString (lit ''A'')), Some (JString ?tag), Some (JString ?cs))"
    by (simp add: encodeQRPayload_def Let_def payload_fields_stringify)
  have ok: "decodeQRPayload decimal_numbers (encodeQRPayload (lit ''A''))
      = Returned \<lparr>valid = True, serialNumber = JString (lit ''A''), error = None\<rparr>"
    by (rule decode_encode) (simp add: lit_def)
  note th = checksum_sensitivity [OF f ok]
  have len: "0 < length ?cs" using calculateCRC32_nonempty [of "lit ''A'' @ ?tag"] by simp
  have 1: "decodeQRPayload decimal_numbers
     (JSON_stringify [(lit ''s'', lit ''A''), (lit ''src'', ?tag), (lit ''cs'', ?cs [0 := ?cs ! 0 + 1])])
     = Returned (decode_failure (lit ''Checksum mismatch''))"
    using len th [THEN conjunct1, rule_format,
        of "JSON_stringify [(lit ''s'', lit ''A''), (lit ''src'', ?tag), (lit ''cs'', ?cs [0 := ?cs ! 0 + 1])]"
          0 "?cs ! 0 + 1"]
    by (simp add: payload_fields_stringify)
  have "(lit ''lablup-inventory'') [0 := 0x4C] = lit ''Lablup-inventory''"
    by (simp add: lit_def)
  then have 2: "decodeQRPayload decimal_numbers
     (JSON_stringify [(lit ''s'', lit ''A''), (lit ''src'', lit ''Lablup-inventory''), (lit ''cs'', ?cs)])
     = Returned (decode_failure (lit ''Unknown source''))"
    using th [THEN conjunct2, THEN conjunct1, rule_format,
        of "JSON_stringify [(lit ''s'', lit ''A''), (lit ''src'', lit ''Lablup-inventory''), (lit ''cs'', ?cs)]" 0 "0x4C"]
    by (simp add: payload_fields_stringify) (simp add: lit_def)
  have "(lit ''A'') [0 := 0x42] = lit ''B''" by (simp add: lit_def)
  then have 3: "decodeQRPayload decimal_numbers
     (JSON_stringify [(lit ''s'', lit ''B''), (lit ''src'', ?tag), (lit ''cs'', ?cs)])
     = Returned (decode_failure (lit ''Checksum mismatch''))"
    using th [THEN conjunct2, THEN conjunct2, rule_format,
        of "JSON_stringify [(lit ''s'', lit ''B''), (lit ''src'', ?tag), (lit ''cs'', ?cs)]" 0 "0x42"]
    by (simp add: payload_fields_stringify) (simp add: lit_def)
  from 1 2 3 show ?thesis by simp
qed

text \<open>
  C9 as stated fails: \<open>A\<close> (U+0041) and U+0141 have the same low byte, so the payload of \<open>A\<close>
  with its \<open>s\<close> changed to U+0141 is still accepted.
\<close>

theorem checksum_sensitivity_counterexample:
  "decodeQRPayload decimal_numbers (encodeQRPayload [0x41])
     = Returned \<lparr>valid = True, serialNumber = JString [0x41], error = None\<rparr>
   \<and> encodeQRPayload [0x41]
     = JSON_stringify [(lit ''s'', [0x41]), (lit ''src'', lit ''lablup-inventory''),
         (lit ''cs'', calculateCRC32 ([0x41] @ lit ''lablup-inventory''))]
   \<and> [0x41 :: code_unit] [0 := 0x141] = [0x141]
   \<and> (0x141 :: code_unit) \<noteq> 0x41
   \<and> decodeQRPayload decimal_numbers
        (JSON_stringify [(lit ''s'', [0x141]), (lit ''src'', lit ''lablup-inventory''),
           (lit ''cs'', calculateCRC32 ([0x41] @ lit ''lablup-inventory''))])
     = Returned \<lparr>valid = True, serialNumber = JString [0x141], error = None\<rparr>"
proof -
  let ?tag = "lit ''lablup-inventory''"
  have "calculateCRC32 (map (\<lambda>c. c AND 0xFF) ([0x141] @ ?tag))
      = calculateCRC32 (map (\<lambda>c. c AND 0xFF) ([0x41] @ ?tag))"
    by simp
  then have "calculateCRC32 ([0x141] @ ?tag) = calculateCRC32 ([0x41] @ ?tag)"
    by (simp only: calculateCRC32_low_bytes)
  then have "decodeQRPayload decimal_numbers
        (JSON_stringify [(lit ''s'', [0x141]), (lit ''src'', ?tag),
           (lit ''cs'', calculateCRC32 ([0x41] @ ?tag))])
     = Returned \<lparr>valid = True, serialNumber = JString [0x141], error = None\<rparr>"
    by (simp add: payload_fields_decode [OF payload_fields_stringify] calculateCRC32_nonempty)
  moreover have "decodeQRPayload decimal_numbers (encodeQRPayload [0x41])
     = Returned \<lparr>valid = True, serialNumber = JString [0x41], error = None\<rparr>"
    by (rule decode_encode) simp
  ultimately show ?thesis by (simp add: encodeQRPayload_def Let_def)
qed

text \<open>
  A text that parses to a boolean, a number, a string or an array has none of the three
  fields.
\<close>

lemma decode_no_fields:
  assumes "JSON_parse raw = Some v" and "v \<noteq> JNull" and "\<forall>props. v \<noteq> JObject props"
  shows "decodeQRPayload N raw = Returned (decode_failure (lit ''Missing required fields''))"
  using assms by (cases v) (simp_all add: decodeQRPayload_def)

text \<open>
  C2. The two examples behave as the claim says, but the text \<open>null\<close> parses, has none
  of the three fields, and is not answered with \<open>Missing required fields\<close>: reading
  \<open>payload.s\<close> throws.
\<close>

theorem decode_stages_null:
  \<open>decodeQRPayload N (lit ''not json'') = Returned (decode_failure (lit ''Not JSON''))
   \<and> decodeQRPayload N (lit ''{"not":"ours"}'')
       = Returned (decode_failure (lit ''Missing required fields''))
   \<and> JSON_parse (lit ''null'') = Some JNull
   \<and> decodeQRPayload N (lit ''null'') \<noteq> Returned (decode_failure (lit ''Missing required fields''))\<close>
  by (simp add: decodeQRPayload_def JSON_parse_not_json JSON_parse_not_ours JSON_parse_null)
    (simp add: lit_def)

text \<open>
  C10. \<open>decodeQRPayload\<close> throws a TypeError on the text \<open>null\<close>, and on an object whose
  \<open>s\<close> cannot be converted to a string.
\<close>

theorem decode_throws:
  \<open>decodeQRPayload N (lit ''null'') = Thrown TypeError
   \<and> decodeQRPayload N (lit ''{"s":{"toString":1},"src":"lablup-inventory","cs":"x"}'')
       = Thrown TypeError\<close>
proof -
  have "lit ''s'' \<noteq> lit ''src''" "lit ''s'' \<noteq> lit ''cs''" "lit ''src'' \<noteq> lit ''cs''"
    "lit ''x'' \<noteq> []"
    by (simp_all add: lit_def)
  then show ?thesis
    by (simp add: decodeQRPayload_def JSON_parse_toString JSON_parse_null)
qed

theorem decode_stages_null_witness:
  \<open>decodeQRPayload decimal_numbers (lit ''not json'') = Returned (decode_failure (lit ''Not JSON''))
   \<and> decodeQRPayload decimal_numbers (lit ''{"not":"ours"}'')
       = Returned (decode_failure (lit ''Missing required fields''))
   \<and> JSON_parse (lit ''null'') = Some JNull
   \<and> decodeQRPayload decimal_numbers (lit ''null'')
       \<noteq> Returned (decode_failure (lit ''Missing required fields''))\<close>
  by (rule decode_stages_null)

theorem decode_throws_witness:
  \<open>decodeQRPayload decimal_numbers (lit ''null'') = Thrown TypeError
   \<and> decodeQRPayload decimal_numbers
        (lit ''{"s":{"toString":1},"src":"lablup-inventory","cs":"x"}'')
       = Thrown TypeError\<close>
  by (rule decode_throws)

section \<open>The scanner: found serials and targets\<close>




lemma overlay_loop_completed:
  "overlay_loop N now lft m = (kept, hvt, lft', drawn, None) \<Longrightarrow>
   kept = filter (\<lambda>(k, d). now - lastSeen d \<le> 500) m
   \<and> hvt = list_ex (\<lambda>(k, d). now - lastSeen d \<le> 500 \<and> isTarget d) m
   \<and> lft' = (if list_ex (\<lambda>(k, d). now - lastSeen d \<le> 500 \<and> isTarget d) m then now else lft)"
proof (induction m arbitrary: lft kept hvt lft' drawn)
  case Nil
  then show ?case by simp
next
  case (Cons e m)
  obtain k d where e: "e = (k, d)" by (cases e)
  show ?case
  proof (cases "now - lastSeen d > QR_VISIBILITY_TIMEOUT")
    case True
    with Cons.prems e have "overlay_loop N now lft m = (kept, hvt, lft', drawn, None)"
      by simp
    from Cons.IH [OF this] True e show ?thesis
      by (simp add: QR_VISIBILITY_TIMEOUT_def)
  next
    case False
    let ?l = "if isTarget d then now else lft"
    obtain kept1 hvt1 lft1 drawn1 err1
      where r: "overlay_loop N now ?l m = (kept1, hvt1, lft1, drawn1, err1)"
      by (cases "overlay_loop N now ?l m") auto
    from Cons.prems e False r have res: "err1 = None" "kept = (k, d) # kept1"
      "hvt = (isTarget d \<or> hvt1)" "lft' = lft1"
      by (auto simp: Let_def split: if_splits completion.splits)
    from Cons.IH [OF r [unfolded res(1)]] res False e show ?thesis
      by (auto simp: QR_VISIBILITY_TIMEOUT_def)
  qed
qed

lemma overlay_loop_labels:
  "\<forall>(k, d) \<in> set m. now - lastSeen d \<le> 500 \<and> bounds d \<noteq> None
      \<longrightarrow> (\<exists>t. overlay_label N k = Returned t) \<Longrightarrow>
   \<exists>kept hvt lft' drawn. overlay_loop N now lft m = (kept, hvt, lft', drawn, None)"
proof (induction m arbitrary: lft)
  case Nil
  show ?case by auto
next
  case (Cons e m)
  obtain k d where e: "e = (k, d)" by (cases e)
  from Cons.prems have "\<forall>(k, d) \<in> set m. now - lastSeen d \<le> 500 \<and> bounds d \<noteq> None
      \<longrightarrow> (\<exists>t. overlay_label N k = Returned t)"
    by simp
  from Cons.IH [OF this] have ih: "\<exists>kept hvt lft' drawn.
      overlay_loop N now l m = (kept, hvt, lft', drawn, None)" for l
    by blast
  show ?case
  proof (cases "now - lastSeen d > QR_VISIBILITY_TIMEOUT")
    case True
    with e ih [of lft] show ?thesis by simp
  next
    case False
    let ?l = "if isTarget d then now else lft"
    from ih [of ?l] obtain kept hvt lft' drawn
      where r: "overlay_loop N now ?l m = (kept, hvt, lft', drawn, None)"
      by blast
    show ?thesis
    proof (cases "bounds d \<noteq> None")
      case True
      with False Cons.prems e obtain t where "overlay_label N k = Returned t"
        by (auto simp: QR_VISIBILITY_TIMEOUT_def)
      with False True e r show ?thesis by (simp add: Let_def)
    next
      case nb: False
      with False e r show ?thesis by (simp add: Let_def)
    qed
  qed
qed

lemma run_append:
  "run N st (ops @ ops') =
     (case run N st ops of
        (st1, evs) \<Rightarrow> (case run N st1 ops' of (st2, evs') \<Rightarrow> (st2, evs @ evs')))"
  by (induction ops arbitrary: st) (auto split: prod.splits)

lemma fst_run_Cons: "fst (run N st (op # ops)) = fst (run N (fst (step N st op)) ops)"
  by (simp split: prod.splits)

lemma snd_run_Cons:
  "snd (run N st (op # ops)) = snd (step N st op) @ snd (run N (fst (step N st op)) ops)"
  by (simp split: prod.splits)

lemma fst_scanFrame_loop_Cons:
  "fst (scanFrame_loop N st ((now, b) # ds)) =
     (case processBarcode N st now b of
        Thrown e \<Rightarrow> st
      | Returned r \<Rightarrow> fst (scanFrame_loop N (fst r) ds))"
  by (simp split: completion.splits prod.splits)

lemma snd_scanFrame_loop_Cons:
  "snd (scanFrame_loop N st ((now, b) # ds)) =
     (case processBarcode N st now b of
        Thrown e \<Rightarrow> []
      | Returned r \<Rightarrow> snd r @ snd (scanFrame_loop N (fst r) ds))"
  by (simp split: completion.splits prod.splits)

lemma fst_step_DrawOverlays: "fst (step N st (DrawOverlays now)) = fst (drawOverlays N st now)"
  by (simp split: prod.splits)

lemma snd_step_DrawOverlays:
  "snd (step N st (DrawOverlays now)) = fst (snd (drawOverlays N st now))"
  by (simp split: prod.splits)

lemma fst_run_append: "fst (run N st (ops @ ops')) = fst (run N (fst (run N st ops)) ops')"
  by (simp add: run_append split: prod.splits)

text \<open>What a detection that returns does to the sets and which events it emits.\<close>

lemma processBarcode_Returned:
  assumes "processBarcode N st now b = Returned (st1, evs)"
  shows "targetSerials st1 = targetSerials st \<and> onFoundCallback st1 = onFoundCallback st
    \<and> onBorderStateChange st1 = onBorderStateChange st
    \<and> currentBorderState st1 = currentBorderState st \<and> isScanning st1 = isScanning st
    \<and> lastFoundTime st1 = lastFoundTime st \<and> overlayReady st1 = overlayReady st
    \<and> ((foundSerials st1 = foundSerials st \<and> evs = [])
       \<or> (\<exists>S. S \<in> set (targetSerials st) \<and> S \<notin> set (foundSerials st)
            \<and> foundSerials st1 = foundSerials st @ [S]
            \<and> evs = FoundFeedback #
                (if onFoundCallback st then [OnFound S (foundSerials st @ [S])] else [])))"
  using assms
  by (auto simp: processBarcode_def Let_def split: completion.splits if_splits json.splits)

lemma processBarcode_found_subset:
  assumes "processBarcode N st now b = Returned (st1, evs)"
    and "set (foundSerials st) \<subseteq> set (targetSerials st)"
  shows "set (foundSerials st1) \<subseteq> set (targetSerials st1)"
  using processBarcode_Returned [OF assms(1)] assms(2) by auto

lemma processBarcode_found_mono:
  assumes "processBarcode N st now b = Returned (st1, evs)"
  shows "set (foundSerials st) \<subseteq> set (foundSerials st1)"
  using processBarcode_Returned [OF assms(1)] by auto

lemma scanFrame_loop_found_subset:
  "set (foundSerials st) \<subseteq> set (targetSerials st) \<Longrightarrow>
   set (foundSerials (fst (scanFrame_loop N st ds)))
     \<subseteq> set (targetSerials (fst (scanFrame_loop N st ds)))"
proof (induction ds arbitrary: st)
  case Nil
  then show ?case by simp
next
  case (Cons d ds)
  obtain now b where d: "d = (now, b)" by (cases d)
  show ?case
  proof (cases "processBarcode N st now b")
    case (Thrown e)
    with Cons.prems d show ?thesis by simp
  next
    case (Returned r)
    obtain st1 evs where r: "r = (st1, evs)" by (cases r)
    from Returned r Cons.prems have "set (foundSerials st1) \<subseteq> set (targetSerials st1)"
      by (auto dest: processBarcode_found_subset)
    from Cons.IH [OF this] Returned r d show ?thesis
      by (simp add: fst_scanFrame_loop_Cons del: scanFrame_loop.simps)
  qed
qed

lemma scanFrame_loop_found_mono:
  "set (foundSerials st) \<subseteq> set (foundSerials (fst (scanFrame_loop N st ds)))"
proof (induction ds arbitrary: st)
  case Nil
  then show ?case by simp
next
  case (Cons d ds)
  obtain now b where d: "d = (now, b)" by (cases d)
  show ?case
  proof (cases "processBarcode N st now b")
    case (Thrown e)
    with d show ?thesis by simp
  next
    case (Returned r)
    obtain st1 evs where r: "r = (st1, evs)" by (cases r)
    from Returned r have "set (foundSerials st) \<subseteq> set (foundSerials st1)"
      by (auto dest: processBarcode_found_mono)
    with Cons.IH [of st1] Returned r d show ?thesis
      by (auto simp add: fst_scanFrame_loop_Cons simp del: scanFrame_loop.simps)
  qed
qed

lemma drawOverlays_frame:
  "overlayReady (fst (drawOverlays N st now)) = overlayReady st"
  "onBorderStateChange (fst (drawOverlays N st now)) = onBorderStateChange st"
  "targetSerials (fst (drawOverlays N st now)) = targetSerials st"
  "foundSerials (fst (drawOverlays N st now)) = foundSerials st"
  "isScanning (fst (drawOverlays N st now)) = isScanning st"
  "onFoundCallback (fst (drawOverlays N st now)) = onFoundCallback st"
  by (simp_all add: drawOverlays_def Let_def split: prod.splits)

lemma step_found_subset:
  "set (foundSerials st) \<subseteq> set (targetSerials st) \<Longrightarrow>
   set (foundSerials (fst (step N st op))) \<subseteq> set (targetSerials (fst (step N st op)))"
proof (cases op)
  case (ScanFrame ds)
  assume "set (foundSerials st) \<subseteq> set (targetSerials st)"
  with ScanFrame show ?thesis by (simp add: scanFrame_loop_found_subset)
next
  case (DrawOverlays now)
  assume "set (foundSerials st) \<subseteq> set (targetSerials st)"
  with DrawOverlays show ?thesis
    by (simp add: drawOverlays_frame fst_step_DrawOverlays del: step.simps)
qed (auto simp: startScanner_def startScanner_resume_def stopScanner_def setTargetSerials_def
    resetFoundSerials_def setOnFoundCallback_def setOnBorderStateChange_def Let_def)

lemma step_found_mono:
  "session_op op \<Longrightarrow> set (foundSerials st) \<subseteq> set (foundSerials (fst (step N st op)))"
proof (cases op)
  case (ScanFrame ds)
  then show ?thesis by (simp add: scanFrame_loop_found_mono)
next
  case (DrawOverlays now)
  then show ?thesis by (simp add: drawOverlays_frame fst_step_DrawOverlays del: step.simps)
qed (auto simp: startScanner_def startScanner_resume_def stopScanner_def
    setOnFoundCallback_def setOnBorderStateChange_def Let_def)

lemma run_found_subset:
  "set (foundSerials st) \<subseteq> set (targetSerials st) \<Longrightarrow>
   set (foundSerials (fst (run N st ops))) \<subseteq> set (targetSerials (fst (run N st ops)))"
proof (induction ops arbitrary: st)
  case Nil
  then show ?case by simp
next
  case (Cons op ops)
  from Cons.IH [OF step_found_subset [OF Cons.prems, of N op]] show ?case
    by (simp add: fst_run_Cons del: run.simps)
qed

lemma run_found_mono:
  "list_all session_op ops \<Longrightarrow>
   set (foundSerials st) \<subseteq> set (foundSerials (fst (run N st ops)))"
proof (induction ops arbitrary: st)
  case Nil
  then show ?case by simp
next
  case (Cons op ops)
  then have "set (foundSerials st) \<subseteq> set (foundSerials (fst (step N st op)))"
    and "set (foundSerials (fst (step N st op)))
      \<subseteq> set (foundSerials (fst (run N (fst (step N st op)) ops)))"
    by (simp_all add: step_found_mono)
  then show ?case by (auto simp add: fst_run_Cons simp del: run.simps)
qed

text \<open>
  C5. In every state the module reaches from its initial state, by any operations,
  the found serials are among the targets; and operations other than a redefinition of
  the targets and a reset never remove a found serial.
\<close>

theorem found_subset_targets:
  "set (foundSerials (fst (run N initial_state ops)))
     \<subseteq> set (targetSerials (fst (run N initial_state ops)))
   \<and> (list_all session_op ops' \<longrightarrow>
        set (foundSerials (fst (run N initial_state ops)))
          \<subseteq> set (foundSerials (fst (run N initial_state (ops @ ops')))))"
  by (simp add: run_found_subset initial_state_def fst_run_append run_found_mono)

theorem found_subset_targets_witness:
  "list_all session_op [ScanFrame [(1, \<lparr>rawValue = encodeQRPayload (lit ''SN-42''),
       cornerPoints = None, boundingBox = None\<rparr>)], StopScanner]
   \<and> set (foundSerials (fst (run decimal_numbers initial_state
         [StartScanner True, CameraResult True, SetTargetSerials (lit ''SN-42'')])))
     \<subseteq> set (targetSerials (fst (run decimal_numbers initial_state
         [StartScanner True, CameraResult True, SetTargetSerials (lit ''SN-42'')])))
   \<and> set (foundSerials (fst (run decimal_numbers initial_state
         [StartScanner True, CameraResult True, SetTargetSerials (lit ''SN-42'')])))
     \<subseteq> set (foundSerials (fst (run decimal_numbers initial_state
         ([StartScanner True, CameraResult True, SetTargetSerials (lit ''SN-42'')] @
          [ScanFrame [(1, \<lparr>rawValue = encodeQRPayload (lit ''SN-42''),
             cornerPoints = None, boundingBox = None\<rparr>)], StopScanner]))))"
  using found_subset_targets [of decimal_numbers
      "[StartScanner True, CameraResult True, SetTargetSerials (lit ''SN-42'')]"
      "[ScanFrame [(1, \<lparr>rawValue = encodeQRPayload (lit ''SN-42''),
         cornerPoints = None, boundingBox = None\<rparr>)], StopScanner]"]
  by (simp del: run.simps)

section \<open>The scanner: found notifications\<close>










lemma processBarcode_string:
  assumes "decodeQRPayload N (rawValue b)
      = Returned \<lparr>valid = True, serialNumber = JString S, error = None\<rparr>"
  shows "processBarcode N st now b = Returned
     (if S \<in> set (targetSerials st) \<and> S \<notin> set (foundSerials st) then
        (st\<lparr>visibleQRs := Map_set N (visibleQRs st) (JString S)
             \<lparr>bounds = barcode_bounds b, lastSeen = now, isTarget = True\<rparr>,
           foundSerials := foundSerials st @ [S]\<rparr>,
         FoundFeedback #
           (if onFoundCallback st then [OnFound S (foundSerials st @ [S])] else []))
      else
        (st\<lparr>visibleQRs := Map_set N (visibleQRs st) (JString S)
             \<lparr>bounds = barcode_bounds b, lastSeen = now,
              isTarget = S \<in> set (targetSerials st)\<rparr>\<rparr>, []))"
  by (simp add: processBarcode_def assms Let_def)


lemma scanFrame_loop_thrown:
  "decodeQRPayload N (rawValue b) = Thrown e \<Longrightarrow>
   scanFrame_loop N st ((now, b) # rest) = (st, [])"
  by (simp add: processBarcode_def)








lemma parse_serials_SN42: "parse_serials (lit ''SN-42'') = [lit ''SN-42'']"
  by (simp add: parse_serials_def trim_def is_trim_space_def lit_def)

lemma lit_SN42_nonempty: "lit ''SN-42'' \<noteq> []"
  by (simp add: lit_def)

lemma decode_SN42:
  "decodeQRPayload N (encodeQRPayload (lit ''SN-42''))
     = Returned \<lparr>valid = True, serialNumber = JString (lit ''SN-42''), error = None\<rparr>"
  by (rule decode_encode) (rule lit_SN42_nonempty)

lemma processBarcode_encoded:
  assumes "S \<noteq> []" and "rawValue b = encodeQRPayload S"
  shows "processBarcode N st now b = Returned
     (if S \<in> set (targetSerials st) \<and> S \<notin> set (foundSerials st) then
        (st\<lparr>visibleQRs := Map_set N (visibleQRs st) (JString S)
             \<lparr>bounds = barcode_bounds b, lastSeen = now, isTarget = True\<rparr>,
           foundSerials := foundSerials st @ [S]\<rparr>,
         FoundFeedback #
           (if onFoundCallback st then [OnFound S (foundSerials st @ [S])] else []))
      else
        (st\<lparr>visibleQRs := Map_set N (visibleQRs st) (JString S)
             \<lparr>bounds = barcode_bounds b, lastSeen = now,
              isTarget = S \<in> set (targetSerials st)\<rparr>\<rparr>, []))"
  by (rule processBarcode_string) (simp add: assms decode_encode)

lemmas scanner_eval =
  initial_state_def startScanner_def startScanner_resume_def stopScanner_def
  setTargetSerials_def resetFoundSerials_def
  setOnFoundCallback_def setOnBorderStateChange_def drawOverlays_def Let_def
  QR_VISIBILITY_TIMEOUT_def BORDER_DEBOUNCE_MS_def parse_serials_SN42
  processBarcode_encoded [OF lit_SN42_nonempty] barcode_bounds_def same_key_def




text \<open>
  The detections after one whose payload makes \<open>decodeQRPayload\<close> throw are not
  processed: a target that follows the text \<open>null\<close> in its frame is not found by that
  frame.
\<close>

lemma scanFrame_loop_dropped:
  "scanFrame_loop N st
     ((now, \<lparr>rawValue = lit ''null'', cornerPoints = None, boundingBox = None\<rparr>) # rest)
     = (st, [])"
  by (rule scanFrame_loop_thrown [of _ _ TypeError]) (simp add: decode_null)

section \<open>The scanner: render ticks and expiry\<close>

lemma render_ticks_Nil: "render_ticks N st [] = st"
  by (simp add: render_ticks_def)

lemma render_ticks_Cons:
  "render_ticks N st (t # ts) = render_ticks N (fst (drawOverlays N st t)) ts"
  by (simp add: render_ticks_def)

lemma render_ticks_append:
  "render_ticks N st (ts @ us) = render_ticks N (render_ticks N st ts) us"
  by (simp add: render_ticks_def)




text \<open>A tick that completes: the map is filtered and the border state recomputed.\<close>

lemma drawOverlays_completed:
  assumes "overlayReady st" and "tick_error N st now = None"
  shows "visibleQRs (fst (drawOverlays N st now))
      = filter (\<lambda>(k, d). now - lastSeen d \<le> 500) (visibleQRs st)"
    and "lastFoundTime (fst (drawOverlays N st now))
      = (if list_ex (\<lambda>(k, d). now - lastSeen d \<le> 500 \<and> isTarget d) (visibleQRs st)
         then now else lastFoundTime st)"
    and "currentBorderState (fst (drawOverlays N st now))
      = (if length (targetSerials st) > 0 \<and> onBorderStateChange st then
           (if list_ex (\<lambda>(k, d). now - lastSeen d \<le> 500 \<and> isTarget d) (visibleQRs st)
               \<or> now - lastFoundTime st < 300
            then Found else Searching)
         else currentBorderState st)"
proof -
  obtain kept hvt lft drawn err
    where r: "overlay_loop N now (lastFoundTime st) (visibleQRs st) = (kept, hvt, lft, drawn, err)"
    by (cases "overlay_loop N now (lastFoundTime st) (visibleQRs st)") auto
  with assms have e: "err = None"
    by (auto simp: tick_error_def drawOverlays_def Let_def split: if_splits)
  note c = overlay_loop_completed [OF r [unfolded e]]
  from assms(1) r e c
  show "visibleQRs (fst (drawOverlays N st now))
      = filter (\<lambda>(k, d). now - lastSeen d \<le> 500) (visibleQRs st)"
    by (simp add: drawOverlays_def Let_def)
  from assms(1) r e c
  show "lastFoundTime (fst (drawOverlays N st now))
      = (if list_ex (\<lambda>(k, d). now - lastSeen d \<le> 500 \<and> isTarget d) (visibleQRs st)
         then now else lastFoundTime st)"
    by (simp add: drawOverlays_def Let_def)
  from assms(1) r e c
  show "currentBorderState (fst (drawOverlays N st now))
      = (if length (targetSerials st) > 0 \<and> onBorderStateChange st then
           (if list_ex (\<lambda>(k, d). now - lastSeen d \<le> 500 \<and> isTarget d) (visibleQRs st)
               \<or> now - lastFoundTime st < 300
            then Found else Searching)
         else currentBorderState st)"
    by (auto simp add: drawOverlays_def Let_def BORDER_DEBOUNCE_MS_def)
qed

text \<open>A tick completes when every live entry with bounds has a label: a string has one.\<close>

lemma tick_error_labels:
  assumes "\<forall>(k, d) \<in> set (visibleQRs st). now - lastSeen d \<le> 500 \<and> bounds d \<noteq> None
      \<longrightarrow> (\<exists>t. overlay_label N k = Returned t)"
  shows "tick_error N st now = None"
proof -
  from overlay_loop_labels [OF assms, of "lastFoundTime st"] show ?thesis
    by (auto simp: tick_error_def drawOverlays_def Let_def)
qed

lemma tick_error_strings:
  assumes "\<forall>(k, d) \<in> set (visibleQRs st). \<exists>t. k = JString t"
  shows "tick_error N st now = None"
proof (rule tick_error_labels)
  from assms show "\<forall>(k, d) \<in> set (visibleQRs st). now - lastSeen d \<le> 500 \<and> bounds d \<noteq> None
      \<longrightarrow> (\<exists>t. overlay_label N k = Returned t)"
    by fastforce
qed

subsection \<open>String keys of the map\<close>





lemma overlay_loop_string_keys:
  "overlay_loop N now lft m = (kept, hvt, lft', drawn, err) \<Longrightarrow>
   set (string_keys kept) \<subseteq> set (string_keys m)
   \<and> (distinct (string_keys m) \<longrightarrow> distinct (string_keys kept))"
proof (induction m arbitrary: lft kept hvt lft' drawn err)
  case Nil
  then show ?case by simp
next
  case (Cons e m)
  obtain k d where e: "e = (k, d)" by (cases e)
  show ?case
  proof (cases "now - lastSeen d > QR_VISIBILITY_TIMEOUT")
    case True
    with Cons.prems e have "overlay_loop N now lft m = (kept, hvt, lft', drawn, err)"
      by simp
    from Cons.IH [OF this] e show ?thesis
      by (cases k) auto
  next
    case False
    let ?l = "if isTarget d then now else lft"
    obtain kept1 hvt1 lft1 drawn1 err1
      where r: "overlay_loop N now ?l m = (kept1, hvt1, lft1, drawn1, err1)"
      by (cases "overlay_loop N now ?l m") auto
    from Cons.prems e False r have "kept = (k, d) # m \<or> kept = (k, d) # kept1"
      by (auto simp: Let_def split: if_splits completion.splits)
    with Cons.IH [OF r] e show ?thesis
      by (cases k) auto
  qed
qed

lemma drawOverlays_distinct_string_keys:
  assumes "distinct (string_keys (visibleQRs st))"
  shows "distinct (string_keys (visibleQRs (fst (drawOverlays N st now))))"
proof (cases "overlayReady st")
  case True
  obtain kept hvt lft drawn err
    where r: "overlay_loop N now (lastFoundTime st) (visibleQRs st) = (kept, hvt, lft, drawn, err)"
    by (cases "overlay_loop N now (lastFoundTime st) (visibleQRs st)") auto
  from overlay_loop_string_keys [OF r] assms True r show ?thesis
    by (auto simp: drawOverlays_def Let_def)
next
  case False
  with assms show ?thesis by (simp add: drawOverlays_def)
qed

lemma string_keys_Map_set:
  "string_keys (Map_set N m k v) =
     (case k of
        JString S \<Rightarrow> if S \<in> set (string_keys m) then string_keys m else string_keys m @ [S]
      | _ \<Rightarrow> string_keys m)"
proof (induction m)
  case Nil
  show ?case by (cases k) simp_all
next
  case (Cons e m)
  obtain k' v' where e: "e = (k', v')" by (cases e)
  with Cons show ?case
    by (cases k; cases k') (auto simp: same_key_def)
qed

lemma distinct_string_keys_Map_set:
  "distinct (string_keys m) \<Longrightarrow> distinct (string_keys (Map_set N m k v))"
  by (cases k) (simp_all add: string_keys_Map_set)


subsection \<open>Expiry\<close>







text \<open>In the states the module reaches, the string keys of the map are distinct.\<close>

lemma processBarcode_distinct_string_keys:
  assumes "processBarcode N st now b = Returned (st1, evs)"
    and "distinct (string_keys (visibleQRs st))"
  shows "distinct (string_keys (visibleQRs st1))"
  using assms
  by (auto simp: processBarcode_def Let_def distinct_string_keys_Map_set
      split: completion.splits if_splits json.splits)

lemma scanFrame_loop_distinct_string_keys:
  "distinct (string_keys (visibleQRs st)) \<Longrightarrow>
   distinct (string_keys (visibleQRs (fst (scanFrame_loop N st ds))))"
proof (induction ds arbitrary: st)
  case Nil
  then show ?case by simp
next
  case (Cons d ds)
  obtain now b where d: "d = (now, b)" by (cases d)
  show ?case
  proof (cases "processBarcode N st now b")
    case (Thrown e)
    with d Cons.prems show ?thesis by simp
  next
    case (Returned r)
    obtain st1 evs where r: "r = (st1, evs)" by (cases r)
    from Returned r Cons.prems have "distinct (string_keys (visibleQRs st1))"
      by (auto dest: processBarcode_distinct_string_keys)
    from Cons.IH [OF this] Returned r d show ?thesis
      by (simp add: fst_scanFrame_loop_Cons del: scanFrame_loop.simps)
  qed
qed

lemma step_distinct_string_keys:
  assumes "distinct (string_keys (visibleQRs st))"
  shows "distinct (string_keys (visibleQRs (fst (step N st op))))"
proof (cases op)
  case (ScanFrame ds)
  with assms show ?thesis by (simp add: scanFrame_loop_distinct_string_keys)
next
  case (DrawOverlays now)
  with assms show ?thesis
    by (simp add: fst_step_DrawOverlays drawOverlays_distinct_string_keys del: step.simps)
qed (use assms in \<open>auto simp: startScanner_def startScanner_resume_def stopScanner_def
    setTargetSerials_def resetFoundSerials_def setOnFoundCallback_def
    setOnBorderStateChange_def Let_def\<close>)

lemma reachable_distinct_string_keys:
  "distinct (string_keys (visibleQRs (fst (run N initial_state ops))))"
proof -
  have "distinct (string_keys (visibleQRs st)) \<Longrightarrow>
      distinct (string_keys (visibleQRs (fst (run N st ops))))" for st
  proof (induction ops arbitrary: st)
    case Nil
    then show ?case by simp
  next
    case (Cons op ops)
    from Cons.IH [OF step_distinct_string_keys [OF Cons.prems, of N op]] show ?case
      by (simp add: fst_run_Cons del: run.simps)
  qed
  then show ?thesis by (simp add: initial_state_def)
qed

section \<open>The scanner: the border state\<close>

subsection \<open>Debounce\<close>

lemma tick_in_window:
  assumes "overlayReady st" and "onBorderStateChange st" and "targetSerials st \<noteq> []"
    and "visibleQRs st = [(JString S, d)]" and "isTarget d" and "t \<le> lastSeen d + 500"
  shows "visibleQRs (fst (drawOverlays N st t)) = [(JString S, d)]"
    and "currentBorderState (fst (drawOverlays N st t)) = Found"
    and "lastFoundTime (fst (drawOverlays N st t)) = t"
proof -
  from assms(4) have "tick_error N st t = None"
    by (intro tick_error_strings) simp
  note c = drawOverlays_completed [OF assms(1) this]
  from assms show "visibleQRs (fst (drawOverlays N st t)) = [(JString S, d)]"
    and "currentBorderState (fst (drawOverlays N st t)) = Found"
    and "lastFoundTime (fst (drawOverlays N st t)) = t"
    by (simp_all add: c)
qed

lemma ticks_in_window:
  assumes "overlayReady st" and "onBorderStateChange st" and "targetSerials st \<noteq> []"
    and "visibleQRs st = [(JString S, d)]" and "isTarget d"
    and "\<forall>t \<in> set ts. t \<le> lastSeen d + 500"
  shows "visibleQRs (render_ticks N st ts) = [(JString S, d)]
    \<and> (ts \<noteq> [] \<longrightarrow> currentBorderState (render_ticks N st ts) = Found)
    \<and> lastFoundTime (render_ticks N st ts) = last (lastFoundTime st # ts)"
  using assms
proof (induction ts arbitrary: st)
  case Nil
  then show ?case by (simp add: render_ticks_Nil)
next
  case (Cons t ts)
  let ?st = "fst (drawOverlays N st t)"
  from Cons.prems have t: "t \<le> lastSeen d + 500" and ts: "\<forall>t \<in> set ts. t \<le> lastSeen d + 500"
    by simp_all
  note one = tick_in_window [OF Cons.prems(1-5) t, of N]
  from Cons.prems have fr: "overlayReady ?st" "onBorderStateChange ?st" "targetSerials ?st \<noteq> []"
    by (simp_all add: drawOverlays_frame)
  from Cons.IH [OF fr one(1) Cons.prems(5) ts] one(2,3) show ?case
    by (cases ts) (simp_all add: render_ticks_Cons render_ticks_Nil)
qed

lemma tick_late:
  assumes "overlayReady st" and "onBorderStateChange st" and "targetSerials st \<noteq> []"
    and "\<forall>(k, d) \<in> set (visibleQRs st). lastSeen d + 500 < u"
  shows "visibleQRs (fst (drawOverlays N st u)) = []"
    and "currentBorderState (fst (drawOverlays N st u))
      = (if u - lastFoundTime st < 300 then Found else Searching)"
    and "lastFoundTime (fst (drawOverlays N st u)) = lastFoundTime st"
proof -
  from assms(4) have "tick_error N st u = None"
    by (intro tick_error_labels) auto
  note c = drawOverlays_completed [OF assms(1) this]
  from assms(4) have e: "filter (\<lambda>(k, d). u - lastSeen d \<le> 500) (visibleQRs st) = []"
    by (auto simp: filter_empty_conv)
  from assms(4) have n: "\<not> list_ex (\<lambda>(k, d). u - lastSeen d \<le> 500 \<and> isTarget d) (visibleQRs st)"
    by (auto simp: list_ex_iff)
  from e show "visibleQRs (fst (drawOverlays N st u)) = []"
    by (simp add: c)
  from assms(2,3) n show "currentBorderState (fst (drawOverlays N st u))
      = (if u - lastFoundTime st < 300 then Found else Searching)"
    by (simp add: c)
  from n show "lastFoundTime (fst (drawOverlays N st u)) = lastFoundTime st"
    by (simp add: c)
qed

lemma ticks_late:
  assumes "overlayReady st" and "onBorderStateChange st" and "targetSerials st \<noteq> []"
    and "\<forall>(k, d) \<in> set (visibleQRs st). \<forall>u \<in> set us. lastSeen d + 500 < u" and "us \<noteq> []"
  shows "currentBorderState (render_ticks N st us)
      = (if last us - lastFoundTime st < 300 then Found else Searching)"
  using assms
proof (induction us arbitrary: st)
  case Nil
  then show ?case by simp
next
  case (Cons u us)
  let ?st = "fst (drawOverlays N st u)"
  from Cons.prems have late: "\<forall>(k, d) \<in> set (visibleQRs st). lastSeen d + 500 < u"
    by auto
  note tl = tick_late [OF Cons.prems(1-3) late, of N]
  show ?case
  proof (cases us)
    case Nil
    with tl show ?thesis by (simp add: render_ticks_Cons render_ticks_Nil)
  next
    case (Cons u' us')
    with Cons.prems tl have "currentBorderState (render_ticks N ?st us)
        = (if last us - lastFoundTime ?st < 300 then Found else Searching)"
      by (intro Cons.IH) (simp_all add: drawOverlays_frame)
    with tl Cons show ?thesis by (simp add: render_ticks_Cons)
  qed
qed

text \<open>
  C3, as amended. With a border callback registered and the overlay present, a target
  detected once at \<open>T\<close>, while no other code is visible, gives \<open>found\<close> at every render
  tick up to \<open>T + 500\<close>, that is, as long as its entry has not expired; each of these
  ticks restarts the debounce. At a tick after \<open>T + 500\<close> the state is \<open>found\<close> if the
  last tick up to \<open>T + 500\<close> (or, without one, the earlier \<open>lastFoundTime\<close>) is less
  than 300 ms back, and \<open>searching\<close> otherwise.
\<close>

theorem border_debounce:
  assumes "overlayReady st" and "onBorderStateChange st" and "S \<in> set (targetSerials st)"
    and "visibleQRs st = []"
    and "decodeQRPayload N (rawValue b)
      = Returned \<lparr>valid = True, serialNumber = JString S, error = None\<rparr>"
  shows "\<exists>st1 evs. processBarcode N st T b = Returned (st1, evs)
    \<and> (\<forall>ts. ts \<noteq> [] \<and> (\<forall>t \<in> set ts. t \<le> T + 500) \<longrightarrow>
          currentBorderState (render_ticks N st1 ts) = Found)
    \<and> (\<forall>ts us. (\<forall>t \<in> set ts. t \<le> T + 500) \<and> us \<noteq> [] \<and> (\<forall>u \<in> set us. T + 500 < u) \<longrightarrow>
          currentBorderState (render_ticks N st1 (ts @ us))
            = (if last us - last (lastFoundTime st # ts) < BORDER_DEBOUNCE_MS then Found
               else Searching))"
proof -
  let ?d = "\<lparr>bounds = barcode_bounds b, lastSeen = T, isTarget = True\<rparr>"
  obtain st1 evs where p: "processBarcode N st T b = Returned (st1, evs)"
    and m: "visibleQRs st1 = [(JString S, ?d)]" and r: "overlayReady st1"
    and c: "onBorderStateChange st1" and t: "targetSerials st1 \<noteq> []"
    and l: "lastFoundTime st1 = lastFoundTime st"
  proof -
    from assms(3) have "targetSerials st \<noteq> []" by auto
    with assms(1-4) that show ?thesis
      by (cases "S \<notin> set (foundSerials st)")
        (simp_all add: processBarcode_string [OF assms(5)])
  qed
  have tg: "isTarget ?d" by simp
  have 1: "currentBorderState (render_ticks N st1 ts) = Found"
    if "ts \<noteq> []" and "\<forall>t \<in> set ts. t \<le> T + 500" for ts
    using ticks_in_window [OF r c t m tg, of ts N] that by simp
  have 2: "currentBorderState (render_ticks N st1 (ts @ us))
            = (if last us - last (lastFoundTime st # ts) < BORDER_DEBOUNCE_MS then Found
               else Searching)"
    if w: "\<forall>t \<in> set ts. t \<le> T + 500" and ne: "us \<noteq> []" and late: "\<forall>u \<in> set us. T + 500 < u"
    for ts us
  proof -
    let ?st = "render_ticks N st1 ts"
    from w have w': "\<forall>t \<in> set ts. t \<le> lastSeen ?d + 500" by simp
    note win = ticks_in_window [OF r c t m tg w', of N]
    have "overlayReady ?st" "onBorderStateChange ?st" "targetSerials ?st \<noteq> []"
      using r c t by (induction ts arbitrary: st1)
        (simp_all add: render_ticks_Nil render_ticks_Cons drawOverlays_frame)
    moreover from win late
    have "\<forall>(k, d) \<in> set (visibleQRs ?st). \<forall>u \<in> set us. lastSeen d + 500 < u"
      by simp
    ultimately have "currentBorderState (render_ticks N ?st us)
        = (if last us - lastFoundTime ?st < 300 then Found else Searching)"
      using ne by (rule ticks_late)
    with win l show ?thesis
      by (simp add: render_ticks_append BORDER_DEBOUNCE_MS_def)
  qed
  from p 1 2 show ?thesis by blast
qed

theorem border_debounce_witness:
  "overlayReady (fst (run decimal_numbers initial_state
       [SetOnBorderStateChange True, SetTargetSerials (lit ''SN-42''), StartScanner True, CameraResult True]))
   \<and> onBorderStateChange (fst (run decimal_numbers initial_state
       [SetOnBorderStateChange True, SetTargetSerials (lit ''SN-42''), StartScanner True, CameraResult True]))
   \<and> lit ''SN-42'' \<in> set (targetSerials (fst (run decimal_numbers initial_state
       [SetOnBorderStateChange True, SetTargetSerials (lit ''SN-42''), StartScanner True, CameraResult True])))
   \<and> visibleQRs (fst (run decimal_numbers initial_state
       [SetOnBorderStateChange True, SetTargetSerials (lit ''SN-42''), StartScanner True, CameraResult True])) = []
   \<and> (\<exists>st1 evs.
        processBarcode decimal_numbers
          (fst (run decimal_numbers initial_state
             [SetOnBorderStateChange True, SetTargetSerials (lit ''SN-42''),
              StartScanner True, CameraResult True]))
          1000
          \<lparr>rawValue = encodeQRPayload (lit ''SN-42''), cornerPoints = None, boundingBox = None\<rparr>
        = Returned (st1, evs)
      \<and> currentBorderState (render_ticks decimal_numbers st1 [1200, 1500]) = Found
      \<and> currentBorderState (render_ticks decimal_numbers st1 ([1200, 1500] @ [1799])) = Found
      \<and> currentBorderState (render_ticks decimal_numbers st1 ([1200, 1500] @ [1800])) = Searching)"
proof -
  let ?st = "fst (run decimal_numbers initial_state
       [SetOnBorderStateChange True, SetTargetSerials (lit ''SN-42''), StartScanner True, CameraResult True])"
  let ?b = "\<lparr>rawValue = encodeQRPayload (lit ''SN-42''), cornerPoints = None,
            boundingBox = None\<rparr>"
  have h: "overlayReady ?st" "onBorderStateChange ?st" "lit ''SN-42'' \<in> set (targetSerials ?st)"
    "visibleQRs ?st = []" and l: "lastFoundTime ?st = 0"
    by (simp_all add: scanner_eval)
  have d: "decodeQRPayload decimal_numbers (rawValue ?b)
      = Returned \<lparr>valid = True, serialNumber = JString (lit ''SN-42''), error = None\<rparr>"
    by (simp add: decode_SN42)
  from border_debounce [OF h d, of 1000] obtain st1 evs
    where p: "processBarcode decimal_numbers ?st 1000 ?b = Returned (st1, evs)"
      and a: "\<forall>ts. ts \<noteq> [] \<and> (\<forall>t \<in> set ts. t \<le> 1000 + 500) \<longrightarrow>
          currentBorderState (render_ticks decimal_numbers st1 ts) = Found"
      and b: "\<forall>ts us. (\<forall>t \<in> set ts. t \<le> 1000 + 500) \<and> us \<noteq> [] \<and> (\<forall>u \<in> set us. 1000 + 500 < u) \<longrightarrow>
          currentBorderState (render_ticks decimal_numbers st1 (ts @ us))
            = (if last us - last (lastFoundTime ?st # ts) < BORDER_DEBOUNCE_MS then Found
               else Searching)"
    by blast
  from a [rule_format, of "[1200, 1500]"]
  have 1: "currentBorderState (render_ticks decimal_numbers st1 [1200, 1500]) = Found" by simp
  from b [rule_format, of "[1200, 1500]" "[1799]"]
  have 2: "currentBorderState (render_ticks decimal_numbers st1 ([1200, 1500] @ [1799])) = Found"
    by (simp add: BORDER_DEBOUNCE_MS_def)
  from b [rule_format, of "[1200, 1500]" "[1800]"]
  have 3: "currentBorderState (render_ticks decimal_numbers st1 ([1200, 1500] @ [1800])) = Searching"
    by (simp add: BORDER_DEBOUNCE_MS_def)
  from h p 1 2 3 show ?thesis by blast
qed

text \<open>
  C3 as stated fails: 300 ms after the detection the entry has not expired, so a render
  tick then still gives \<open>found\<close>; after a tick at 500 ms the state is \<open>found\<close> up to 799 ms.
\<close>

theorem border_debounce_counterexample:
  "currentBorderState (fst (run decimal_numbers initial_state
      [SetOnBorderStateChange True, SetTargetSerials (lit ''SN-42''), StartScanner True, CameraResult True,
       ScanFrame [(0, \<lparr>rawValue = encodeQRPayload (lit ''SN-42''), cornerPoints = None,
          boundingBox = None\<rparr>)],
       DrawOverlays 299, DrawOverlays 300])) = Found
   \<and> currentBorderState (fst (run decimal_numbers initial_state
      [SetOnBorderStateChange True, SetTargetSerials (lit ''SN-42''), StartScanner True, CameraResult True,
       ScanFrame [(0, \<lparr>rawValue = encodeQRPayload (lit ''SN-42''), cornerPoints = None,
          boundingBox = None\<rparr>)],
       DrawOverlays 500, DrawOverlays 799])) = Found"
  by (simp add: scanner_eval)

section \<open>The scanner: stopping, resetting and reporting\<close>

text \<open>
  C4, as amended. \<open>setTargetSerials\<close> and \<open>resetFoundSerials\<close> empty the map of visible
  codes and the found serials and set \<open>lastFoundTime\<close> to 0. \<open>stopScanner\<close>, while
  scanning, empties the map, clears the scanning flag and sets the border state to idle,
  and keeps the found serials, the targets and \<open>lastFoundTime\<close>; while not scanning it
  does nothing.
\<close>

theorem clearing_on_reset_and_stop:
  "visibleQRs (fst (setTargetSerials st input)) = []
   \<and> foundSerials (fst (setTargetSerials st input)) = []
   \<and> lastFoundTime (fst (setTargetSerials st input)) = 0
   \<and> visibleQRs (fst (resetFoundSerials st)) = []
   \<and> foundSerials (fst (resetFoundSerials st)) = []
   \<and> lastFoundTime (fst (resetFoundSerials st)) = 0
   \<and> (isScanning st \<longrightarrow>
        visibleQRs (fst (stopScanner st)) = []
        \<and> \<not> isScanning (fst (stopScanner st))
        \<and> currentBorderState (fst (stopScanner st)) = Idle
        \<and> foundSerials (fst (stopScanner st)) = foundSerials st
        \<and> targetSerials (fst (stopScanner st)) = targetSerials st
        \<and> lastFoundTime (fst (stopScanner st)) = lastFoundTime st)
   \<and> (\<not> isScanning st \<longrightarrow> stopScanner st = (st, []))"
  by (simp add: setTargetSerials_def resetFoundSerials_def stopScanner_def Let_def)

theorem clearing_on_reset_and_stop_witness:
  "isScanning (fst (run decimal_numbers initial_state
       [StartScanner True, CameraResult True, SetTargetSerials (lit ''SN-42''),
        ScanFrame [(1000, \<lparr>rawValue = encodeQRPayload (lit ''SN-42''), cornerPoints = None,
           boundingBox = None\<rparr>)]]))
   \<and> visibleQRs (fst (stopScanner (fst (run decimal_numbers initial_state
       [StartScanner True, CameraResult True, SetTargetSerials (lit ''SN-42''),
        ScanFrame [(1000, \<lparr>rawValue = encodeQRPayload (lit ''SN-42''), cornerPoints = None,
           boundingBox = None\<rparr>)]])))) = []
   \<and> foundSerials (fst (stopScanner (fst (run decimal_numbers initial_state
       [StartScanner True, CameraResult True, SetTargetSerials (lit ''SN-42''),
        ScanFrame [(1000, \<lparr>rawValue = encodeQRPayload (lit ''SN-42''), cornerPoints = None,
           boundingBox = None\<rparr>)]]))))
     = foundSerials (fst (run decimal_numbers initial_state
       [StartScanner True, CameraResult True, SetTargetSerials (lit ''SN-42''),
        ScanFrame [(1000, \<lparr>rawValue = encodeQRPayload (lit ''SN-42''), cornerPoints = None,
           boundingBox = None\<rparr>)]]))
   \<and> \<not> isScanning initial_state
   \<and> stopScanner initial_state = (initial_state, [])"
proof -
  let ?st = "fst (run decimal_numbers initial_state
       [StartScanner True, CameraResult True, SetTargetSerials (lit ''SN-42''),
        ScanFrame [(1000, \<lparr>rawValue = encodeQRPayload (lit ''SN-42''), cornerPoints = None,
           boundingBox = None\<rparr>)]])"
  have s: "isScanning ?st" by (simp add: scanner_eval)
  have n: "\<not> isScanning initial_state" by (simp add: initial_state_def)
  from clearing_on_reset_and_stop [of ?st] s
  have "visibleQRs (fst (stopScanner ?st)) = []"
    and "foundSerials (fst (stopScanner ?st)) = foundSerials ?st"
    by blast+
  moreover from clearing_on_reset_and_stop [of initial_state] n
  have "stopScanner initial_state = (initial_state, [])" by blast
  ultimately show ?thesis using s n by blast
qed

text \<open>
  C4 as stated fails for \<open>stopScanner\<close>: after a target was found and drawn, stopping
  leaves it in the found serials and leaves \<open>lastFoundTime\<close> as it was.
\<close>

theorem clearing_on_stop_counterexample:
  "foundSerials (fst (run decimal_numbers initial_state
      [StartScanner True, CameraResult True, SetTargetSerials (lit ''SN-42''),
       ScanFrame [(1000, \<lparr>rawValue = encodeQRPayload (lit ''SN-42''), cornerPoints = None,
          boundingBox = None\<rparr>)],
       DrawOverlays 1100, StopScanner])) = [lit ''SN-42'']
   \<and> lastFoundTime (fst (run decimal_numbers initial_state
      [StartScanner True, CameraResult True, SetTargetSerials (lit ''SN-42''),
       ScanFrame [(1000, \<lparr>rawValue = encodeQRPayload (lit ''SN-42''), cornerPoints = None,
          boundingBox = None\<rparr>)],
       DrawOverlays 1100, StopScanner])) = 1100"
  by (simp add: scanner_eval)

subsection \<open>Reports of the border state\<close>

lemma border_events_append:
  "border_events (evs @ evs') = border_events evs @ border_events evs'"
  by (induction evs rule: border_events.induct) simp_all

lemma last_Cons_append: "last (x # xs @ ys) = last (last (x # xs) # ys)"
  by (cases ys) simp_all

lemma drawOverlays_events:
  "fst (snd (drawOverlays N st now)) = []
     \<and> currentBorderState (fst (drawOverlays N st now)) = currentBorderState st
   \<or> fst (snd (drawOverlays N st now))
       = [BorderStateChange (currentBorderState (fst (drawOverlays N st now)))]
     \<and> currentBorderState (fst (drawOverlays N st now)) \<noteq> currentBorderState st"
  by (simp add: drawOverlays_def Let_def split: prod.splits)

lemma scanFrame_loop_border:
  "border_events (snd (scanFrame_loop N st ds)) = []
   \<and> currentBorderState (fst (scanFrame_loop N st ds)) = currentBorderState st
   \<and> onBorderStateChange (fst (scanFrame_loop N st ds)) = onBorderStateChange st"
proof (induction ds arbitrary: st)
  case Nil
  then show ?case by simp
next
  case (Cons d ds)
  obtain now b where d: "d = (now, b)" by (cases d)
  show ?case
  proof (cases "processBarcode N st now b")
    case (Thrown e)
    with d show ?thesis by simp
  next
    case (Returned r)
    obtain st1 evs where r: "r = (st1, evs)" by (cases r)
    from processBarcode_Returned [of N st now b st1 evs] Returned r
    have "border_events evs = []" "currentBorderState st1 = currentBorderState st"
      "onBorderStateChange st1 = onBorderStateChange st"
      by auto
    with Cons.IH [of st1] Returned r d show ?thesis
      by (simp add: fst_scanFrame_loop_Cons snd_scanFrame_loop_Cons border_events_append
          del: scanFrame_loop.simps)
  qed
qed

lemma step_border_reported:
  assumes "onBorderStateChange st" and "keeps_onBorder op"
  shows "onBorderStateChange (fst (step N st op))
    \<and> currentBorderState (fst (step N st op))
        = last (currentBorderState st # border_events (snd (step N st op)))"
proof (cases op)
  case (ScanFrame ds)
  with assms(1) scanFrame_loop_border [of N st ds] show ?thesis by simp
next
  case (DrawOverlays now)
  with assms(1) drawOverlays_events [of N st now] show ?thesis
    by (auto simp add: fst_step_DrawOverlays snd_step_DrawOverlays drawOverlays_frame
        simp del: step.simps)
qed (use assms in \<open>auto simp: startScanner_def startScanner_resume_def stopScanner_def
    setTargetSerials_def resetFoundSerials_def setOnFoundCallback_def
    setOnBorderStateChange_def Let_def\<close>)

lemma run_border_reported:
  "onBorderStateChange st \<Longrightarrow> list_all keeps_onBorder ops \<Longrightarrow>
   onBorderStateChange (fst (run N st ops))
   \<and> currentBorderState (fst (run N st ops))
       = last (currentBorderState st # border_events (snd (run N st ops)))"
proof (induction ops arbitrary: st)
  case Nil
  then show ?case by simp
next
  case (Cons op ops)
  let ?st = "fst (step N st op)"
  from Cons.prems have 1: "onBorderStateChange ?st"
    and 2: "currentBorderState ?st = last (currentBorderState st # border_events (snd (step N st op)))"
    using step_border_reported [of st op N] by simp_all
  from Cons.IH [OF 1] Cons.prems(2)
  have "onBorderStateChange (fst (run N ?st ops))"
    and "currentBorderState (fst (run N ?st ops))
       = last (currentBorderState ?st # border_events (snd (run N ?st ops)))"
    by simp_all
  with 2 show ?case
    by (simp add: fst_run_Cons snd_run_Cons border_events_append last_Cons_append
        del: run.simps last.simps)
qed

lemma drawOverlays_report:
  "fst (snd (drawOverlays N st now)) =
     (if currentBorderState (fst (drawOverlays N st now)) = currentBorderState st then []
      else [BorderStateChange (currentBorderState (fst (drawOverlays N st now)))])"
  using drawOverlays_events [of N st now] by auto

lemma command_reports:
  assumes "onBorderStateChange st"
  shows "snd (startScanner_resume st camera) =
       (if camera \<and> targetSerials st \<noteq> [] then [BorderStateChange Searching] else [])"
    and "snd (stopScanner st) = (if isScanning st then [BorderStateChange Idle] else [])"
    and "fst (snd (setTargetSerials st input)) =
       (if isScanning st then
          [BorderStateChange (if parse_serials input \<noteq> [] then Searching else Idle)]
        else [])"
    and "snd (resetFoundSerials st) =
       (if isScanning st \<and> targetSerials st \<noteq> [] then [BorderStateChange Searching] else [])"
  using assms
  by (simp_all add: startScanner_resume_def stopScanner_def setTargetSerials_def
      resetFoundSerials_def Let_def)

lemma snd_step_SetTargetSerials:
  "snd (step N st (SetTargetSerials input)) = fst (snd (setTargetSerials st input))"
  by (simp split: prod.splits)

lemma step_reports:
  assumes "onBorderStateChange st"
  shows "border_events (snd (step N st op)) =
     (case op of
        StartScanner container \<Rightarrow> []
      | CameraResult camera \<Rightarrow>
          if camera \<and> targetSerials st \<noteq> [] then [Searching] else []
      | StopScanner \<Rightarrow> if isScanning st then [Idle] else []
      | SetTargetSerials input \<Rightarrow>
          if isScanning st then [if parse_serials input \<noteq> [] then Searching else Idle]
          else []
      | ResetFoundSerials \<Rightarrow>
          if isScanning st \<and> targetSerials st \<noteq> [] then [Searching] else []
      | SetOnFoundCallback cb \<Rightarrow> []
      | SetOnBorderStateChange cb \<Rightarrow> []
      | ScanFrame detections \<Rightarrow> []
      | DrawOverlays now \<Rightarrow>
          if currentBorderState (fst (drawOverlays N st now)) = currentBorderState st then []
          else [currentBorderState (fst (drawOverlays N st now))])"
proof (cases op)
  case (ScanFrame ds)
  with scanFrame_loop_border [of N st ds] show ?thesis by simp
next
  case (DrawOverlays now)
  then show ?thesis
    by (simp add: snd_step_DrawOverlays drawOverlays_report [of N st now] del: step.simps)
next
  case (SetTargetSerials input)
  with command_reports(3) [OF assms, of input] show ?thesis
    by (simp add: snd_step_SetTargetSerials del: step.simps)
qed (use command_reports [OF assms] in simp_all)

text \<open>
  C8, as amended. While a border callback stays registered, the border state held by the
  module is the one reported last (idle, the initial state, before any report). A render
  tick reports the state it computes if and only if it differs from the one reported
  last; a tick that runs to its end with targets set computes \<open>found\<close> if a target is
  visible or was within the debounce time, \<open>searching\<close> otherwise. The other operations
  report without comparing: \<open>startScanner\<close>, once the camera plays, reports \<open>searching\<close>
  if there are targets; \<open>stopScanner\<close>, while scanning, reports \<open>idle\<close>;
  \<open>setTargetSerials\<close>, while scanning, reports \<open>searching\<close> if it is given a serial
  and \<open>idle\<close> if not; \<open>resetFoundSerials\<close>, while scanning with targets, reports
  \<open>searching\<close>. Nothing else is reported: no other operation, and none of these
  outside its guard, calls the border callback.
\<close>

theorem border_reported_on_change:
  assumes "onBorderStateChange st" and "list_all keeps_onBorder ops"
  shows "currentBorderState (fst (run N st ops))
       = last (currentBorderState st # border_events (snd (run N st ops)))
    \<and> (\<forall>now.
         fst (snd (drawOverlays N (fst (run N st ops)) now)) =
           (if currentBorderState (fst (drawOverlays N (fst (run N st ops)) now))
                 = last (currentBorderState st # border_events (snd (run N st ops)))
            then []
            else [BorderStateChange
                    (currentBorderState (fst (drawOverlays N (fst (run N st ops)) now)))]))
    \<and> (\<forall>now.
         overlayReady (fst (run N st ops)) \<and> tick_error N (fst (run N st ops)) now = None
         \<and> targetSerials (fst (run N st ops)) \<noteq> [] \<longrightarrow>
         currentBorderState (fst (drawOverlays N (fst (run N st ops)) now)) =
           (if list_ex (\<lambda>(k, d). now - lastSeen d \<le> QR_VISIBILITY_TIMEOUT \<and> isTarget d)
                 (visibleQRs (fst (run N st ops)))
               \<or> now - lastFoundTime (fst (run N st ops)) < BORDER_DEBOUNCE_MS
            then Found else Searching))
    \<and> (\<forall>camera.
         snd (startScanner_resume (fst (run N st ops)) camera) =
           (if camera \<and> targetSerials (fst (run N st ops)) \<noteq> []
            then [BorderStateChange Searching] else []))
    \<and> snd (stopScanner (fst (run N st ops))) =
         (if isScanning (fst (run N st ops)) then [BorderStateChange Idle] else [])
    \<and> (\<forall>input.
         fst (snd (setTargetSerials (fst (run N st ops)) input)) =
           (if isScanning (fst (run N st ops)) then
              [BorderStateChange (if parse_serials input \<noteq> [] then Searching else Idle)]
            else []))
    \<and> snd (resetFoundSerials (fst (run N st ops))) =
         (if isScanning (fst (run N st ops)) \<and> targetSerials (fst (run N st ops)) \<noteq> []
          then [BorderStateChange Searching] else [])
    \<and> (\<forall>op.
         border_events (snd (step N (fst (run N st ops)) op)) =
           (case op of
              StartScanner container \<Rightarrow> []
            | CameraResult camera \<Rightarrow>
                if camera \<and> targetSerials (fst (run N st ops)) \<noteq> [] then [Searching]
                else []
            | StopScanner \<Rightarrow> if isScanning (fst (run N st ops)) then [Idle] else []
            | SetTargetSerials input \<Rightarrow>
                if isScanning (fst (run N st ops))
                then [if parse_serials input \<noteq> [] then Searching else Idle]
                else []
            | ResetFoundSerials \<Rightarrow>
                if isScanning (fst (run N st ops))
                  \<and> targetSerials (fst (run N st ops)) \<noteq> []
                then [Searching] else []
            | SetOnFoundCallback cb \<Rightarrow> []
            | SetOnBorderStateChange cb \<Rightarrow> []
            | ScanFrame detections \<Rightarrow> []
            | DrawOverlays now \<Rightarrow>
                if currentBorderState (fst (drawOverlays N (fst (run N st ops)) now))
                     = currentBorderState (fst (run N st ops))
                then []
                else [currentBorderState (fst (drawOverlays N (fst (run N st ops)) now))]))"
proof -
  let ?st = "fst (run N st ops)"
  from run_border_reported [OF assms, of N]
  have cb: "onBorderStateChange ?st"
    and c: "currentBorderState ?st
       = last (currentBorderState st # border_events (snd (run N st ops)))"
    by simp_all
  have 1: "fst (snd (drawOverlays N ?st now)) =
           (if currentBorderState (fst (drawOverlays N ?st now))
                 = last (currentBorderState st # border_events (snd (run N st ops)))
            then []
            else [BorderStateChange (currentBorderState (fst (drawOverlays N ?st now)))])"
    for now
    unfolding c [symmetric] by (rule drawOverlays_report)
  have 2: "currentBorderState (fst (drawOverlays N ?st now)) =
           (if list_ex (\<lambda>(k, d). now - lastSeen d \<le> QR_VISIBILITY_TIMEOUT \<and> isTarget d)
                 (visibleQRs ?st)
               \<or> now - lastFoundTime ?st < BORDER_DEBOUNCE_MS
            then Found else Searching)"
    if "overlayReady ?st" and "tick_error N ?st now = None" and "targetSerials ?st \<noteq> []"
    for now
    using drawOverlays_completed(3) [OF that(1,2)] that(3) cb
    by (simp add: QR_VISIBILITY_TIMEOUT_def BORDER_DEBOUNCE_MS_def)
  note 3 = command_reports [OF cb]
  show ?thesis
    apply (intro conjI)
           apply (rule c)
          apply (intro allI, rule 1)
         apply (intro allI impI, elim conjE, rule 2, assumption+)
        apply (intro allI, rule 3(1))
       apply (rule 3(2))
      apply (intro allI, rule 3(3))
     apply (rule 3(4))
    apply (intro allI, rule step_reports [OF cb])
    done
qed

theorem border_reported_on_change_witness:
  "onBorderStateChange (setOnBorderStateChange initial_state True)
   \<and> list_all keeps_onBorder
       [SetTargetSerials (lit ''SN-42''), StartScanner True, CameraResult True,
        ScanFrame [(1000, \<lparr>rawValue = encodeQRPayload (lit ''SN-42''), cornerPoints = None,
           boundingBox = None\<rparr>)]]
   \<and> currentBorderState (fst (run decimal_numbers (setOnBorderStateChange initial_state True)
       [SetTargetSerials (lit ''SN-42''), StartScanner True, CameraResult True,
        ScanFrame [(1000, \<lparr>rawValue = encodeQRPayload (lit ''SN-42''), cornerPoints = None,
           boundingBox = None\<rparr>)]]))
     = last (currentBorderState (setOnBorderStateChange initial_state True)
         # border_events (snd (run decimal_numbers (setOnBorderStateChange initial_state True)
       [SetTargetSerials (lit ''SN-42''), StartScanner True, CameraResult True,
        ScanFrame [(1000, \<lparr>rawValue = encodeQRPayload (lit ''SN-42''), cornerPoints = None,
           boundingBox = None\<rparr>)]])))
   \<and> fst (snd (drawOverlays decimal_numbers (fst (run decimal_numbers (setOnBorderStateChange initial_state True)
       [SetTargetSerials (lit ''SN-42''), StartScanner True, CameraResult True,
        ScanFrame [(1000, \<lparr>rawValue = encodeQRPayload (lit ''SN-42''), cornerPoints = None,
           boundingBox = None\<rparr>)]])) 1100))
     = [BorderStateChange Found]
   \<and> snd (stopScanner (fst (run decimal_numbers (setOnBorderStateChange initial_state True)
       [SetTargetSerials (lit ''SN-42''), StartScanner True, CameraResult True,
        ScanFrame [(1000, \<lparr>rawValue = encodeQRPayload (lit ''SN-42''), cornerPoints = None,
           boundingBox = None\<rparr>)]])))
     = [BorderStateChange Idle]
   \<and> snd (resetFoundSerials (fst (run decimal_numbers (setOnBorderStateChange initial_state True)
       [SetTargetSerials (lit ''SN-42''), StartScanner True, CameraResult True,
        ScanFrame [(1000, \<lparr>rawValue = encodeQRPayload (lit ''SN-42''), cornerPoints = None,
           boundingBox = None\<rparr>)]])))
     = [BorderStateChange Searching]"
proof -
  let ?st = "setOnBorderStateChange initial_state True"
  let ?ops = "[SetTargetSerials (lit ''SN-42''), StartScanner True, CameraResult True,
        ScanFrame [(1000, \<lparr>rawValue = encodeQRPayload (lit ''SN-42''), cornerPoints = None,
           boundingBox = None\<rparr>)]]"
  let ?s = "fst (run decimal_numbers ?st ?ops)"
  have h: "onBorderStateChange ?st" "list_all keeps_onBorder ?ops"
    by (simp_all add: scanner_eval)
  note th = border_reported_on_change [OF h, of decimal_numbers]
  have s: "isScanning ?s" "targetSerials ?s \<noteq> []" "currentBorderState ?s = Searching"
    by (simp_all add: scanner_eval)
  have d: "currentBorderState (fst (drawOverlays decimal_numbers ?s 1100)) = Found"
    by (simp add: scanner_eval)
  from th have "currentBorderState ?s
      = last (currentBorderState ?st # border_events (snd (run decimal_numbers ?st ?ops)))"
    by (rule conjunct1)
  moreover from th [THEN conjunct2, THEN conjunct1, rule_format, of 1100] d s(3) calculation
  have "fst (snd (drawOverlays decimal_numbers ?s 1100)) = [BorderStateChange Found]"
    by simp
  moreover from th s(1) have "snd (stopScanner ?s) = [BorderStateChange Idle]"
    by simp
  moreover from th s(1,2) have "snd (resetFoundSerials ?s) = [BorderStateChange Searching]"
    by simp
  ultimately show ?thesis using h by blast
qed

text \<open>
  C8 as stated fails for each of these operations: while scanning, redefining the targets
  twice, or resetting after the start, reports \<open>searching\<close> twice in a row; stopping,
  starting and stopping again without targets reports \<open>idle\<close> twice in a row; and two
  calls of \<open>startScanner\<close> that both wait for the camera each report \<open>searching\<close>.
\<close>

theorem border_reported_counterexample:
  "snd (run decimal_numbers initial_state
      [SetOnBorderStateChange True, StartScanner True, CameraResult True,
       SetTargetSerials (lit ''SN-42''), SetTargetSerials (lit ''SN-42'')])
     = [BorderStateChange Searching, BorderStateChange Searching]
   \<and> snd (run decimal_numbers initial_state
      [SetOnBorderStateChange True, SetTargetSerials (lit ''SN-42''), StartScanner True,
       CameraResult True, ResetFoundSerials])
     = [BorderStateChange Searching, BorderStateChange Searching]
   \<and> snd (run decimal_numbers initial_state
      [SetOnBorderStateChange True, StartScanner True, CameraResult True, StopScanner,
       StartScanner True, CameraResult True, StopScanner])
     = [BorderStateChange Idle, BorderStateChange Idle]
   \<and> snd (run decimal_numbers initial_state
      [SetOnBorderStateChange True, SetTargetSerials (lit ''SN-42''), StartScanner True,
       StartScanner True, CameraResult True, CameraResult True])
     = [BorderStateChange Searching, BorderStateChange Searching]"
  by (simp add: scanner_eval)

end
